theory Spec2Isabelle
  imports Main "HOL-Library.Signed_Division"
begin

section \<open>The Go library functions that the package calls\<close>

text \<open>
  A Go \<open>string\<close> and a \<open>[]byte\<close> are sequences of bytes: \<open>string\<close> here, a list of
  8-bit \<open>char\<close>s. A \<open>rune\<close> is an \<open>int32\<close> code point; it is an \<open>int\<close> here, and every
  value outside the Unicode scalar values is treated the way the library treats an
  invalid rune. The counters of the package are Go \<open>int\<close>s (64 bits); they are \<open>int\<close>
  here, since a counter only overflows after \<open>2^63\<close> runes have been buffered.
\<close>

type_synonym rune = int

subsection \<open>unicode/utf8\<close>

definition RuneError :: rune where
  "RuneError = 0xFFFD"

text \<open>
  \<open>utf8.AppendRune\<close>: the UTF-8 encoding of a rune. A negative rune, a rune above
  \<open>U+10FFFF\<close> and a surrogate are encoded as \<open>RuneError\<close>, three bytes.
\<close>

definition AppendRune :: "rune \<Rightarrow> string" where
  "AppendRune r =
     (if 0 \<le> r \<and> r \<le> 0x7F then [char_of r]
      else if 0 \<le> r \<and> r \<le> 0x7FF then
        [char_of (0xC0 + r div 64), char_of (0x80 + r mod 64)]
      else if r < 0 \<or> 0x10FFFF < r \<or> (0xD800 \<le> r \<and> r \<le> 0xDFFF) then
        [CHR 0xEF, CHR 0xBF, CHR 0xBD]
      else if r \<le> 0xFFFF then
        [char_of (0xE0 + r div 4096), char_of (0x80 + (r div 64) mod 64),
         char_of (0x80 + r mod 64)]
      else
        [char_of (0xF0 + r div 262144), char_of (0x80 + (r div 4096) mod 64),
         char_of (0x80 + (r div 64) mod 64), char_of (0x80 + r mod 64)])"

text \<open>
  The table \<open>first\<close> of the package together with \<open>acceptRanges\<close>: for a leading
  byte above ASCII, the length of the sequence it starts and the range its second
  byte must lie in; \<open>None\<close> is the entry \<open>xx\<close> of an invalid leading byte.
\<close>

definition first :: "int \<Rightarrow> (nat \<times> int \<times> int) option" where
  "first c =
     (if c < 0xC2 then None
      else if c \<le> 0xDF then Some (2, 0x80, 0xBF)
      else if c = 0xE0 then Some (3, 0xA0, 0xBF)
      else if c \<le> 0xEC then Some (3, 0x80, 0xBF)
      else if c = 0xED then Some (3, 0x80, 0x9F)
      else if c \<le> 0xEF then Some (3, 0x80, 0xBF)
      else if c = 0xF0 then Some (4, 0x90, 0xBF)
      else if c \<le> 0xF3 then Some (4, 0x80, 0xBF)
      else if c = 0xF4 then Some (4, 0x80, 0x8F)
      else None)"

text \<open>
  One round of the loop of \<open>utf8.RuneCount\<close>: the number of bytes by which the index
  advances over the sequence at the head of \<open>p\<close>. An invalid or short sequence advances
  by one byte.
\<close>

definition advance :: "string \<Rightarrow> nat" where
  "advance p =
     (let c = (of_char (p ! 0) :: int) in
      if c < 0x80 then 1
      else case first c of
        None \<Rightarrow> 1
      | Some (sz, lo, hi) \<Rightarrow>
          if length p < sz then 1
          else if of_char (p ! 1) < lo \<or> hi < of_char (p ! 1) then 1
          else if sz = 2 then 2
          else if of_char (p ! 2) < (0x80::int) \<or> (0xBF::int) < of_char (p ! 2) then 1
          else if sz = 3 then 3
          else if of_char (p ! 3) < (0x80::int) \<or> (0xBF::int) < of_char (p ! 3) then 1
          else 4)"

function RuneCount :: "string \<Rightarrow> nat" where
  "RuneCount p = (if p = [] then 0 else Suc (RuneCount (drop (advance p) p)))"
  by pat_completeness auto
termination
  by (relation "measure length") (auto simp: advance_def Let_def split: option.splits)

declare RuneCount.simps [simp del]

subsection \<open>unicode, strings\<close>

text \<open>
  \<open>unicode.IsSpace\<close>: in Latin-1 the eight characters of the \<open>switch\<close>, above it the
  ranges of the table \<open>White_Space\<close>.
\<close>

definition IsSpace :: "rune \<Rightarrow> bool" where
  "IsSpace r =
     (if 0 \<le> r \<and> r \<le> 0xFF then
        r = 0x09 \<or> r = 0x0A \<or> r = 0x0B \<or> r = 0x0C \<or> r = 0x0D \<or> r = 0x20
          \<or> r = 0x85 \<or> r = 0xA0
      else
        r = 0x1680 \<or> (0x2000 \<le> r \<and> r \<le> 0x200A) \<or> r = 0x2028 \<or> r = 0x2029
          \<or> r = 0x202F \<or> r = 0x205F \<or> r = 0x3000)"

text \<open>
  The largest Go \<open>int\<close>, and \<open>maxAlloc\<close> of the Go runtime on a 64-bit platform: a
  slice of more than \<open>maxAlloc\<close> bytes is not allocated, \<open>make\<close> panics instead
  (\<open>makeslice: len out of range\<close>).
\<close>

definition maxInt :: int where
  "maxInt = 2 ^ 63 - 1"

definition maxAlloc :: int where
  "maxAlloc = 2 ^ 48"

text \<open>
  \<open>strings.Repeat\<close>, with \<open>None\<close> for its panics: the counts 0 and 1 return at once;
  a negative count panics, as does a length of the result that overflows \<open>int\<close>; the
  result is then built in a \<open>Builder\<close> grown to its length, which panics when that is
  more than \<open>maxAlloc\<close>. (That the machine runs out of memory below that length is not
  a panic and not part of the model.)
\<close>

definition Repeat :: "string \<Rightarrow> int \<Rightarrow> string option" where
  "Repeat str count =
     (if count = 0 then Some []
      else if count = 1 then Some str
      else if count < 0 then None
      else if maxInt < int (length str) * count then None
      else if str = [] then Some []
      else if maxAlloc < int (length str) * count then None
      else Some (concat (replicate (nat count) str)))"

subsection \<open>Errors, and the writes of bytes.Buffer\<close>

text \<open>
  An \<open>error\<close> value is \<open>io.EOF\<close> or some other error, named by its message. A Go
  \<open>error\<close> result is an \<open>error option\<close>, \<open>None\<close> for \<open>nil\<close>.
\<close>

datatype error = EOF | Failure string

text \<open>
  The writes of \<open>bytes.Buffer\<close> append to the contents and return the number of bytes
  written; their \<open>error\<close> result is always \<open>nil\<close>.
\<close>

definition Buffer_WriteRune :: "string \<Rightarrow> rune \<Rightarrow> string \<times> int \<times> error option" where
  "Buffer_WriteRune b r = (b @ AppendRune r, int (length (AppendRune r)), None)"

definition Buffer_WriteString :: "string \<Rightarrow> string \<Rightarrow> string \<times> int \<times> error option" where
  "Buffer_WriteString b str = (b @ str, int (length str), None)"

text \<open>
  \<open>bytes.Buffer.WriteTo\<close> with another buffer as the writer: the contents are written
  to the destination and the source is reset. The result is the source, the
  destination, the number of bytes and the error.
\<close>

definition Buffer_WriteTo :: "string \<Rightarrow> string \<Rightarrow> string \<times> string \<times> int \<times> error option" where
  "Buffer_WriteTo b w = ([], w @ b, int (length b), None)"

section \<open>runeBuffer\<close>

record runeBuffer =
  buf :: string
  runeCount :: int

definition empty_buffer :: runeBuffer where
  "empty_buffer = \<lparr>buf = [], runeCount = 0\<rparr>"

definition Count :: "runeBuffer \<Rightarrow> int" where
  "Count b = runeCount b"

definition String :: "runeBuffer \<Rightarrow> string" where
  "String b = buf b"

definition WriteRune :: "runeBuffer \<Rightarrow> rune \<Rightarrow> runeBuffer \<times> int \<times> error option" where
  "WriteRune b r =
     (case Buffer_WriteRune (buf b) r of (buf', n, e) \<Rightarrow>
        (\<lparr>buf = buf', runeCount = (if e = None then runeCount b + 1 else runeCount b)\<rparr>, n, e))"

definition WriteString :: "runeBuffer \<Rightarrow> string \<Rightarrow> runeBuffer \<times> int \<times> error option" where
  "WriteString b str =
     (case Buffer_WriteString (buf b) str of (buf', n, e) \<Rightarrow>
        (\<lparr>buf = buf', runeCount = runeCount b + int (RuneCount (take (nat n) str))\<rparr>, n, e))"

text \<open>
  \<open>b.WriteTo(w)\<close> for two distinct buffers; the result is \<open>b\<close>, \<open>w\<close>, the number of
  bytes and the error.
\<close>

definition rb_WriteTo :: "runeBuffer \<Rightarrow> runeBuffer \<Rightarrow> runeBuffer \<times> runeBuffer \<times> int \<times> error option" where
  "rb_WriteTo b w =
     (let wc = runeCount w + runeCount b in
      case Buffer_WriteTo (buf b) (buf w) of (bbuf, wbuf, n, e) \<Rightarrow>
        (\<lparr>buf = bbuf, runeCount = 0\<rparr>, \<lparr>buf = wbuf, runeCount = wc\<rparr>, n, e))"

definition Reset :: "runeBuffer \<Rightarrow> runeBuffer" where
  "Reset b = \<lparr>buf = [], runeCount = 0\<rparr>"

section \<open>The input of the Scanner\<close>

text \<open>
  The \<open>io.RuneScanner\<close> that a Scanner owns: the runes it still has to deliver, and the
  error it returns from then on (\<open>io.EOF\<close> at the end of the input, or a read
  failure). A successful \<open>ReadRune\<close> returns the rune and the number of bytes it
  occupied, at least one; at the end it returns \<open>(0, 0, err)\<close>.
\<close>

record RuneScanner =
  pending :: "rune list"
  final :: error

definition ReadRune :: "RuneScanner \<Rightarrow> RuneScanner \<times> rune \<times> int \<times> error option" where
  "ReadRune src =
     (case pending src of
        [] \<Rightarrow> (src, 0, 0, Some (final src))
      | c # cs \<Rightarrow> (src\<lparr>pending := cs\<rparr>, c, int (length (AppendRune c)), None))"

text \<open>
  \<open>peekRune\<close>: \<open>UnreadRune\<close> straight after a successful \<open>ReadRune\<close> steps back over
  that rune and returns \<open>nil\<close>, so the source is as it was.
\<close>

definition peekRune :: "RuneScanner \<Rightarrow> RuneScanner \<times> rune \<times> int \<times> error option" where
  "peekRune src =
     (case ReadRune src of (src', ch, sz, e) \<Rightarrow>
        if e \<noteq> None then (src', ch, sz, e) else (src, ch, sz, None))"

section \<open>Scanner\<close>

record Scanner =
  rdr :: RuneScanner
  limit :: int
  prefix :: string
  tabWidth :: int
  err :: "error option"
  line :: runeBuffer
  word :: runeBuffer
  space :: runeBuffer
  needNewline :: bool
  skipNextWS :: bool

definition NewScanner :: "RuneScanner \<Rightarrow> int \<Rightarrow> Scanner" where
  "NewScanner src lim =
     \<lparr>rdr = src, limit = lim, prefix = [], tabWidth = 4, err = None,
      line = empty_buffer, word = empty_buffer, space = empty_buffer,
      needNewline = False, skipNextWS = False\<rparr>"

definition SetPrefix :: "Scanner \<Rightarrow> string \<Rightarrow> Scanner" where
  "SetPrefix s p = s\<lparr>prefix := p\<rparr>"

definition SetTabWidth :: "Scanner \<Rightarrow> int \<Rightarrow> Scanner" where
  "SetTabWidth s width = s\<lparr>tabWidth := width\<rparr>"

definition flushWord :: "Scanner \<Rightarrow> Scanner \<times> int \<times> error option" where
  "flushWord s =
     (if Count (word s) > 0 then
        (case (if Count (line s) = 0 then WriteString (line s) (prefix s)
               else (line s, 0, None)) of
           (l1, n1, e1) \<Rightarrow>
             if e1 \<noteq> None then (s\<lparr>line := l1\<rparr>, n1, e1)
             else
               (case rb_WriteTo (space s) l1 of
                  (sp, l2, n2, e2) \<Rightarrow>
                    if e2 \<noteq> None then (s\<lparr>line := l2, space := sp\<rparr>, n1 + n2, e2)
                    else
                      (case rb_WriteTo (word s) l2 of
                         (wd, l3, n3, e3) \<Rightarrow>
                           (s\<lparr>line := l3, space := sp, word := wd\<rparr>, n1 + n2 + n3, e3))))
      else (s, 0, None))"

subsection \<open>One round of the loop of ReadLine\<close>

text \<open>
  A round of the loop ends in \<open>continue\<close>, in \<open>break\<close>, in a \<open>return\<close> of a line and
  an error, or in a panic.
\<close>

datatype step = Continue Scanner | Break Scanner | Return Scanner string "error option" | Panicked

text \<open>
  The first part of a round, up to the comment "Commit the line if we've reached the
  maximum width": it either decides the round or falls through to the width check
  (\<open>Check\<close>).
\<close>

datatype scanned = Decided step | Check Scanner

definition consume :: "Scanner \<Rightarrow> scanned" where
  "consume s0 =
     (case ReadRune (rdr s0) of
        (src, char, _, e) \<Rightarrow>
          let s = s0\<lparr>rdr := src\<rparr> in
          if e = Some EOF then Decided (Break s)
          else if e \<noteq> None then Decided (Return (s\<lparr>err := e\<rparr>) [] e)
          else if IsSpace char then
            (case flushWord s of
               (s1, _, e1) \<Rightarrow>
                 if e1 \<noteq> None then Decided (Return (s1\<lparr>err := e1\<rparr>) [] e1)
                 else if char = 0x0A then
                   Decided (Return (s1\<lparr>skipNextWS := False, line := Reset (line s1),
                                       space := Reset (space s1)\<rparr>) (String (line s1)) None)
                 else if skipNextWS s1 then Decided (Continue s1)
                 else if char = 0x09 then
                   (let count = (if tabWidth s1 \<noteq> 0
                                 then tabWidth s1 - Count (line s1) smod tabWidth s1 else 0)
                    in case Repeat '' '' count of
                         None \<Rightarrow> Decided Panicked
                       | Some spaces \<Rightarrow>
                           (case WriteString (space s1) spaces of
                              (sp, _, _) \<Rightarrow> Check (s1\<lparr>space := sp\<rparr>)))
                 else
                   (case WriteRune (space s1) char of
                      (sp, _, e2) \<Rightarrow>
                        if e2 \<noteq> None then Decided (Return (s1\<lparr>space := sp, err := e2\<rparr>) [] e2)
                        else Check (s1\<lparr>space := sp\<rparr>)))
          else
            (case WriteRune (word s) char of
               (wd, _, _) \<Rightarrow>
                 let s1 = s\<lparr>word := wd, skipNextWS := False\<rparr> in
                 if needNewline s1 then
                   Decided (Return (s1\<lparr>needNewline := False, line := Reset (line s1)\<rparr>)
                                   (String (line s1)) None)
                 else Check s1))"

text \<open>The width check that ends a round.\<close>

definition commit :: "Scanner \<Rightarrow> step" where
  "commit s0 =
     (if Count (line s0) + Count (word s0) + Count (space s0) \<ge> limit s0 then
        (case peekRune (rdr s0) of
           (src, next, nextSize, e) \<Rightarrow>
             let s = s0\<lparr>rdr := src\<rparr> in
             if e \<noteq> None \<and> e \<noteq> Some EOF then Return (s\<lparr>err := e\<rparr>) [] e
             else
               (case (if Count (word s) = limit s \<or> IsSpace next \<or> nextSize = 0
                      then flushWord s else (s, 0, None)) of
                  (s1, _, e1) \<Rightarrow>
                    if e1 \<noteq> None then Return (s1\<lparr>err := e1\<rparr>) [] e1
                    else
                      let s2 = (if nextSize \<noteq> 0 \<and> next \<noteq> 0x0A \<and> Count (space s1) < limit s1
                                then s1\<lparr>needNewline := True\<rparr> else s1)
                      in Continue (s2\<lparr>skipNextWS := True, space := Reset (space s2)\<rparr>)))
      else Continue s0)"

definition iteration :: "Scanner \<Rightarrow> step" where
  "iteration s = (case consume s of Decided st \<Rightarrow> st | Check s1 \<Rightarrow> commit s1)"

subsection \<open>The rounds of the loop without the writes that cannot fail\<close>

text \<open>
  The writes into a \<open>runeBuffer\<close> never return an error, so \<open>flushWord\<close> is a
  function of the state alone, and the two parts of a round are a case analysis on the
  rune read and the rune peeked.
\<close>

lemma flushWord_eq:
  "flushWord s =
     (if 0 < runeCount (word s) then
        (s\<lparr>line := \<lparr>buf = buf (line s) @ (if runeCount (line s) = 0 then prefix s else [])
                              @ buf (space s) @ buf (word s),
                      runeCount = runeCount (line s)
                              + (if runeCount (line s) = 0 then int (RuneCount (prefix s)) else 0)
                              + runeCount (space s) + runeCount (word s)\<rparr>,
           space := \<lparr>buf = [], runeCount = 0\<rparr>,
           word := \<lparr>buf = [], runeCount = 0\<rparr>\<rparr>,
         (if runeCount (line s) = 0 then int (length (prefix s)) else 0)
           + int (length (buf (space s))) + int (length (buf (word s))),
         None)
      else (s, 0, None))"
  by (simp add: flushWord_def WriteString_def rb_WriteTo_def Buffer_WriteString_def
      Buffer_WriteTo_def Count_def Let_def)

definition flushed :: "Scanner \<Rightarrow> Scanner" where
  "flushed s = fst (flushWord s)"

lemma flushWord_flushed: "\<exists>n. flushWord s = (flushed s, n, None)"
  by (simp add: flushed_def flushWord_eq)

lemma flushed_eq:
  "flushed s =
     (if 0 < runeCount (word s) then
        s\<lparr>line := \<lparr>buf = buf (line s) @ (if runeCount (line s) = 0 then prefix s else [])
                              @ buf (space s) @ buf (word s),
                      runeCount = runeCount (line s)
                              + (if runeCount (line s) = 0 then int (RuneCount (prefix s)) else 0)
                              + runeCount (space s) + runeCount (word s)\<rparr>,
           space := \<lparr>buf = [], runeCount = 0\<rparr>,
           word := \<lparr>buf = [], runeCount = 0\<rparr>\<rparr>
      else s)"
  by (simp add: flushed_def flushWord_eq)

lemma flushed_frame [simp]:
  "rdr (flushed s) = rdr s" "limit (flushed s) = limit s" "prefix (flushed s) = prefix s"
  "tabWidth (flushed s) = tabWidth s" "err (flushed s) = err s"
  "needNewline (flushed s) = needNewline s" "skipNextWS (flushed s) = skipNextWS s"
  by (simp_all add: flushed_eq)

lemma case_flushWord:
  "(case flushWord s of (s1, n, e) \<Rightarrow> f s1 n e) = f (flushed s) (fst (snd (flushWord s))) None"
  by (simp add: flushed_def flushWord_eq)

lemma Repeat_space:
  "Repeat '' '' count =
     (if count < 0 \<or> maxAlloc < count then None else Some (replicate (nat count) CHR '' ''))"
  by (simp add: Repeat_def maxAlloc_def maxInt_def)

lemma consume_eq:
  "consume s =
     (case pending (rdr s) of
        [] \<Rightarrow> if final (rdr s) = EOF then Decided (Break s)
              else Decided (Return (s\<lparr>err := Some (final (rdr s))\<rparr>) [] (Some (final (rdr s))))
      | c # cs \<Rightarrow>
          if IsSpace c then
            (let s1 = flushed (s\<lparr>rdr := (rdr s)\<lparr>pending := cs\<rparr>\<rparr>) in
             if c = 0x0A then
               Decided (Return (s1\<lparr>skipNextWS := False, line := \<lparr>buf = [], runeCount = 0\<rparr>,
                                   space := \<lparr>buf = [], runeCount = 0\<rparr>\<rparr>) (buf (line s1)) None)
             else if skipNextWS s1 then Decided (Continue s1)
             else if c = 0x09 then
               (let count = (if tabWidth s1 \<noteq> 0
                             then tabWidth s1 - runeCount (line s1) smod tabWidth s1 else 0)
                in if count < 0 \<or> maxAlloc < count then Decided Panicked
                   else Check (s1\<lparr>space := \<lparr>buf = buf (space s1) @ replicate (nat count) CHR '' '',
                        runeCount = runeCount (space s1)
                           + int (RuneCount (replicate (nat count) CHR '' ''))\<rparr>\<rparr>))
             else Check (s1\<lparr>space := \<lparr>buf = buf (space s1) @ AppendRune c,
                                          runeCount = runeCount (space s1) + 1\<rparr>\<rparr>))
          else
            (let s1 = s\<lparr>rdr := (rdr s)\<lparr>pending := cs\<rparr>,
                        word := \<lparr>buf = buf (word s) @ AppendRune c,
                                 runeCount = runeCount (word s) + 1\<rparr>,
                        skipNextWS := False\<rparr> in
             if needNewline s then
               Decided (Return (s1\<lparr>needNewline := False, line := \<lparr>buf = [], runeCount = 0\<rparr>\<rparr>)
                               (buf (line s)) None)
             else Check s1))"
  by (simp add: consume_def case_flushWord ReadRune_def WriteString_def WriteRune_def
      Buffer_WriteRune_def Buffer_WriteString_def Repeat_space Count_def String_def Reset_def Let_def
      split: list.splits error.splits)


lemma AppendRune_not_Nil [simp]: "AppendRune r \<noteq> []"
  by (simp add: AppendRune_def)

lemma commit_eq:
  "commit s =
     (if limit s \<le> runeCount (line s) + runeCount (word s) + runeCount (space s) then
        (case pending (rdr s) of
           [] \<Rightarrow>
             if final (rdr s) \<noteq> EOF then
               Return (s\<lparr>err := Some (final (rdr s))\<rparr>) [] (Some (final (rdr s)))
             else Continue ((flushed s)\<lparr>skipNextWS := True, space := \<lparr>buf = [], runeCount = 0\<rparr>\<rparr>)
         | c # cs \<Rightarrow>
             let s1 = (if runeCount (word s) = limit s \<or> IsSpace c then flushed s else s);
                 s2 = (if c \<noteq> 0x0A \<and> runeCount (space s1) < limit s
                       then s1\<lparr>needNewline := True\<rparr> else s1)
             in Continue (s2\<lparr>skipNextWS := True, space := \<lparr>buf = [], runeCount = 0\<rparr>\<rparr>))
      else Continue s)"
  by (simp add: commit_def case_flushWord peekRune_def ReadRune_def Count_def Reset_def Let_def IsSpace_def
      split: list.splits error.splits)

lemma consume_Continue:
  "consume s = Decided (Continue s') \<Longrightarrow>
     length (pending (rdr s')) < length (pending (rdr s)) \<and> err s' = err s
       \<and> final (rdr s') = final (rdr s)"
  by (auto simp: consume_eq Let_def split: if_splits list.splits)

lemma consume_Check:
  "consume s = Check s' \<Longrightarrow>
     length (pending (rdr s')) < length (pending (rdr s)) \<and> err s' = err s
       \<and> final (rdr s') = final (rdr s)"
  by (auto simp: consume_eq Let_def split: if_splits list.splits)

lemma consume_Return:
  "consume s = Decided (Return s' ret None) \<Longrightarrow>
     length (pending (rdr s')) < length (pending (rdr s)) \<and> err s' = err s
       \<and> final (rdr s') = final (rdr s)"
  by (auto simp: consume_eq Let_def split: if_splits list.splits)

lemma consume_Break:
  "consume s = Decided (Break s') \<Longrightarrow> s' = s \<and> pending (rdr s) = [] \<and> final (rdr s) = EOF"
  by (auto simp: consume_eq Let_def split: if_splits list.splits)

lemma commit_cases:
  "commit s = st \<Longrightarrow>
     (\<exists>s'. st = Continue s' \<and> rdr s' = rdr s \<and> err s' = err s)
     \<or> (\<exists>s' e. st = Return s' [] (Some e) \<and> err s' = Some e)"
  by (auto simp: commit_eq Let_def split: if_splits list.splits)

lemma iteration_Continue:
  "iteration s = Continue s' \<Longrightarrow>
     length (pending (rdr s')) < length (pending (rdr s)) \<and> err s' = err s
       \<and> final (rdr s') = final (rdr s)"
  by (auto simp: iteration_def split: scanned.splits
      dest!: consume_Continue consume_Check dest: commit_cases)

lemma iteration_Return:
  "iteration s = Return s' ret None \<Longrightarrow>
     length (pending (rdr s')) < length (pending (rdr s)) \<and> err s' = err s
       \<and> final (rdr s') = final (rdr s)"
  by (auto simp: iteration_def split: scanned.splits
      dest!: consume_Return dest: commit_cases)

lemma iteration_Break:
  "iteration s = Break s' \<Longrightarrow> s' = s \<and> pending (rdr s) = [] \<and> final (rdr s) = EOF"
  by (auto simp: iteration_def split: scanned.splits
      dest!: consume_Break dest: commit_cases)

subsection \<open>ReadLine\<close>

text \<open>A call either panics or returns; \<open>Done\<close> carries the state left behind and the results.\<close>

datatype 'a outcome = Panic | Done 'a

text \<open>
  The loop of \<open>ReadLine\<close> and the code after it (reached by \<open>break\<close> at the end of the
  input): flush the word, return the line and remember \<open>io.EOF\<close>.
\<close>

function read_loop :: "Scanner \<Rightarrow> (Scanner \<times> string \<times> error option) outcome" where
  "read_loop s =
     (case iteration s of
        Continue s' \<Rightarrow> read_loop s'
      | Break s' \<Rightarrow>
          (case flushWord s' of
             (s1, _, e) \<Rightarrow>
               if e \<noteq> None then Done (s1\<lparr>err := e\<rparr>, [], e)
               else Done (s1\<lparr>line := Reset (line s1), err := Some EOF\<rparr>, String (line s1), None))
      | Return s' ret e \<Rightarrow> Done (s', ret, e)
      | Panicked \<Rightarrow> Panic)"
  by pat_completeness auto
termination
  by (relation "measure (\<lambda>s. length (pending (rdr s)))") (auto dest: iteration_Continue)

declare read_loop.simps [simp del]

definition ReadLine :: "Scanner \<Rightarrow> (Scanner \<times> string \<times> error option) outcome" where
  "ReadLine s = (if err s \<noteq> None then Done (s, [], err s) else read_loop s)"

text \<open>
  What is left for a Scanner to do: the runes it has not read, and the report of the
  end of the input.
\<close>

definition togo :: "Scanner \<Rightarrow> nat" where
  "togo s = length (pending (rdr s)) + (if err s = None then 1 else 0)"

lemma read_loop_togo:
  "read_loop s = Done (s', ret, None) \<Longrightarrow> err s = None \<Longrightarrow> togo s' < togo s"
proof (induction s rule: read_loop.induct)
  case (1 s)
  show ?case
  proof (cases "iteration s")
    case (Continue s1)
    then have "read_loop s1 = Done (s', ret, None)"
      using "1.prems"(1) by (simp add: read_loop.simps [of s])
    moreover have "err s1 = None" "length (pending (rdr s1)) < length (pending (rdr s))"
      using iteration_Continue [OF Continue] "1.prems"(2) by simp_all
    ultimately have "togo s' < togo s1"
      using "1.IH" Continue by simp
    then show ?thesis
      using \<open>err s1 = None\<close> \<open>length (pending (rdr s1)) < length (pending (rdr s))\<close> "1.prems"(2)
      by (simp add: togo_def)
  next
    case (Break s1)
    then have "s' = (flushed s)\<lparr>line := Reset (line (flushed s)), err := Some EOF\<rparr>"
      using "1.prems"(1) iteration_Break [OF Break]
      by (simp add: read_loop.simps [of s] case_flushWord)
    then show ?thesis
      using "1.prems"(2) by (simp add: togo_def)
  next
    case (Return s1 r e)
    then have "s1 = s'" "e = None"
      using "1.prems"(1) by (simp_all add: read_loop.simps [of s])
    then show ?thesis
      using iteration_Return [of s s' r] Return "1.prems"(2) by (simp add: togo_def)
  next
    case Panicked
    then show ?thesis
      using "1.prems"(1) by (simp add: read_loop.simps [of s])
  qed
qed

lemma ReadLine_togo:
  "ReadLine s = Done (s', ret, None) \<Longrightarrow> togo s' < togo s"
  by (auto simp: ReadLine_def split: if_splits dest: read_loop_togo)

text \<open>
  The loop of \<open>TestReadLine\<close>: call \<open>ReadLine\<close> and collect the lines until the first
  error, which is returned with them (\<open>io.EOF\<close> when the whole input was wrapped).
\<close>

function ReadLines :: "Scanner \<Rightarrow> (string list \<times> error) outcome" where
  "ReadLines s =
     (case ReadLine s of
        Panic \<Rightarrow> Panic
      | Done (s', ret, Some e) \<Rightarrow> Done ([], e)
      | Done (s', ret, None) \<Rightarrow>
          (case ReadLines s' of Panic \<Rightarrow> Panic | Done (ls, e) \<Rightarrow> Done (ret # ls, e)))"
  by pat_completeness auto
termination
  by (relation "measure togo") (auto dest: ReadLine_togo)

declare ReadLines.simps [simp del]

subsection \<open>WriteTo\<close>

text \<open>
  The \<open>io.Writer\<close> that \<open>WriteTo\<close> drains into: it keeps what was written to it, and it
  has room for \<open>room\<close> more bytes (\<open>None\<close>: for any number). A write that does not fit
  writes the bytes that fit and returns their number with the error \<open>failure\<close>.
  \<open>io.WriteString\<close> is \<open>Write\<close> on the bytes of the string.
\<close>

record Writer =
  written :: string
  room :: "nat option"
  failure :: error

definition Write :: "Writer \<Rightarrow> string \<Rightarrow> Writer \<times> int \<times> error option" where
  "Write w p =
     (case room w of
        None \<Rightarrow> (w\<lparr>written := written w @ p\<rparr>, int (length p), None)
      | Some k \<Rightarrow>
          if length p \<le> k then
            (w\<lparr>written := written w @ p, room := Some (k - length p)\<rparr>, int (length p), None)
          else
            (w\<lparr>written := written w @ take k p, room := Some 0\<rparr>, int k, Some (failure w)))"





section \<open>Properties of the library functions\<close>

subsection \<open>RuneCount counts one rune for each encoded rune\<close>

lemma RuneCount_Nil [simp]: "RuneCount [] = 0"
  by (simp add: RuneCount.simps)

lemma RuneCount_ascii:
  "(of_char c :: int) < 0x80 \<Longrightarrow> RuneCount (c # p) = Suc (RuneCount p)"
  by (subst RuneCount.simps) (simp add: advance_def)

lemma RuneCount_spaces [simp]: "RuneCount (replicate n CHR '' '') = n"
  by (induction n) (simp_all add: RuneCount_ascii)

text \<open>The runes that \<open>AppendRune\<close> does not replace by \<open>RuneError\<close>.\<close>

definition valid_rune :: "rune \<Rightarrow> bool" where
  "valid_rune r = (0 \<le> r \<and> r \<le> 0x10FFFF \<and> \<not> (0xD800 \<le> r \<and> r \<le> 0xDFFF))"

lemma AppendRune_invalid: "\<not> valid_rune r \<Longrightarrow> AppendRune r = AppendRune RuneError"
  by (auto simp: valid_rune_def AppendRune_def RuneError_def char_of_def)

lemma byte_id: "0 \<le> x \<Longrightarrow> x < 256 \<Longrightarrow> (of_char (char_of (x::int)) :: int) = x"
  by simp

lemma mod_shift:
  fixes x :: int
  assumes "k * 64 \<le> x" "x < k * 64 + 64"
  shows "x mod 64 = x - k * 64"
proof -
  have "(x - k * 64) mod 64 = x - k * 64"
    using assms by (intro mod_pos_pos_trivial) simp_all
  moreover have "(x - k * 64) mod 64 = x mod 64"
    by (simp add: mod_diff_eq [symmetric])
  ultimately show ?thesis by simp
qed

lemma advance1:
  assumes "0 \<le> r" "r \<le> 0x7F"
  shows "advance (AppendRune r @ p) = 1"
  using assms by (simp add: AppendRune_def advance_def)


lemma advance_two:
  fixes x y :: int
  assumes "of_char c0 = x" "of_char c1 = y" "0xC2 \<le> x" "x \<le> 0xDF" "0x80 \<le> y" "y \<le> 0xBF"
  shows "advance (c0 # c1 # p) = 2"
  using assms by (simp add: advance_def first_def)

lemma advance_three:
  fixes x y z :: int
  assumes "of_char c0 = x" "of_char c1 = y" "of_char c2 = z"
    and "0xE0 \<le> x" "x \<le> 0xEF" "0x80 \<le> y" "y \<le> 0xBF" "0x80 \<le> z" "z \<le> 0xBF"
    and "x = 0xE0 \<Longrightarrow> 0xA0 \<le> y" "x = 0xED \<Longrightarrow> y \<le> 0x9F"
  shows "advance (c0 # c1 # c2 # p) = 3"
  using assms by (auto simp: advance_def first_def)

lemma advance_four:
  fixes x y z u :: int
  assumes "of_char c0 = x" "of_char c1 = y" "of_char c2 = z" "of_char c3 = u"
    and "0xF0 \<le> x" "x \<le> 0xF4" "0x80 \<le> y" "y \<le> 0xBF" "0x80 \<le> z" "z \<le> 0xBF"
      "0x80 \<le> u" "u \<le> 0xBF"
    and "x = 0xF0 \<Longrightarrow> 0x90 \<le> y" "x = 0xF4 \<Longrightarrow> y \<le> 0x8F"
  shows "advance (c0 # c1 # c2 # c3 # p) = 4"
  using assms by (auto simp: advance_def first_def)

lemma div_bounds:
  fixes r :: int
  assumes "lo \<le> r" "r \<le> hi" "0 < k"
  shows "lo div k \<le> r div k" "r div k \<le> hi div k"
  using assms by (simp_all add: zdiv_mono1)

lemma div_eq_bounds:
  fixes r :: int
  assumes "r div k = q" "0 < k"
  shows "q * k \<le> r" "r < q * k + k"
proof -
  have "r = k * q + r mod k"
    using assms(1) mult_div_mod_eq [of k r] by simp
  moreover have "0 \<le> r mod k" "r mod k < k"
    using assms(2) by simp_all
  ultimately show "q * k \<le> r" "r < q * k + k"
    by (simp_all add: mult.commute)
qed

lemma advance2:
  assumes "0x80 \<le> r" "r \<le> 0x7FF"
  shows "advance (AppendRune r @ p) = 2"
proof -
  have d: "2 \<le> r div 64" "r div 64 \<le> 31"
    using div_bounds [of 128 r 2047 64] assms by simp_all
  have m: "0 \<le> r mod 64" "r mod 64 < 64"
    by simp_all
  have b0: "(of_char (char_of (0xC0 + r div 64)) :: int) = 0xC0 + r div 64"
    using d by (intro byte_id) linarith+
  have b1: "(of_char (char_of (0x80 + r mod 64)) :: int) = 0x80 + r mod 64"
    using m by (intro byte_id) linarith+
  have "advance (char_of (0xC0 + r div 64) # char_of (0x80 + r mod 64) # p) = 2"
  proof (rule advance_two [OF b0 b1])
    show "0xC2 \<le> 0xC0 + r div 64" "0xC0 + r div 64 \<le> 0xDF"
      using d by simp_all
    show "0x80 \<le> 0x80 + r mod 64" "0x80 + r mod 64 \<le> 0xBF"
      using m by simp_all
  qed
  moreover have "AppendRune r = [char_of (0xC0 + r div 64), char_of (0x80 + r mod 64)]"
    using assms by (simp add: AppendRune_def)
  ultimately show ?thesis
    by simp
qed

lemma advance3:
  assumes "0x800 \<le> r" "r \<le> 0xFFFF" "\<not> (0xD800 \<le> r \<and> r \<le> 0xDFFF)"
  shows "advance (AppendRune r @ p) = 3"
proof -
  have d: "0 \<le> r div 4096" "r div 4096 \<le> 15"
    using div_bounds [of 2048 r 65535 4096] assms by simp_all
  have m1: "0 \<le> (r div 64) mod 64" "(r div 64) mod 64 < 64"
    by simp_all
  have m: "0 \<le> r mod 64" "r mod 64 < 64"
    by simp_all
  have lo: "32 \<le> (r div 64) mod 64" if "r div 4096 = 0"
  proof -
    have "r < 4096" using div_eq_bounds [OF that] by simp
    then have "32 \<le> r div 64" "r div 64 \<le> 63"
      using div_bounds [of 2048 r 4095 64] assms by simp_all
    then show ?thesis by simp
  qed
  have hi: "(r div 64) mod 64 \<le> 31" if "r div 4096 = 13"
  proof -
    have "53248 \<le> r" "r < 57344" using div_eq_bounds [OF that] by simp_all
    then have "r \<le> 55295" using assms(3) by linarith
    then have "832 \<le> r div 64" "r div 64 \<le> 863"
      using div_bounds [of 53248 r 55295 64] \<open>53248 \<le> r\<close> by simp_all
    then have "(r div 64) mod 64 = r div 64 - 832"
      using mod_shift [of 13 "r div 64"] by simp
    then show ?thesis using \<open>r div 64 \<le> 863\<close> by simp
  qed
  have b0: "(of_char (char_of (0xE0 + r div 4096)) :: int) = 0xE0 + r div 4096"
    using d by (intro byte_id) linarith+
  have b1: "(of_char (char_of (0x80 + (r div 64) mod 64)) :: int) = 0x80 + (r div 64) mod 64"
    using m1 by (intro byte_id) linarith+
  have b2: "(of_char (char_of (0x80 + r mod 64)) :: int) = 0x80 + r mod 64"
    using m by (intro byte_id) linarith+
  have "advance (char_of (0xE0 + r div 4096) # char_of (0x80 + (r div 64) mod 64)
                  # char_of (0x80 + r mod 64) # p) = 3"
  proof (rule advance_three [OF b0 b1 b2])
    show "0xE0 \<le> 0xE0 + r div 4096" "0xE0 + r div 4096 \<le> 0xEF"
      using d by simp_all
    show "0x80 \<le> 0x80 + (r div 64) mod 64" "0x80 + (r div 64) mod 64 \<le> 0xBF"
      using m1 by simp_all
    show "0x80 \<le> 0x80 + r mod 64" "0x80 + r mod 64 \<le> 0xBF"
      using m by simp_all
    show "0xA0 \<le> 0x80 + (r div 64) mod 64" if "0xE0 + r div 4096 = 0xE0"
      using lo that by simp
    show "0x80 + (r div 64) mod 64 \<le> 0x9F" if "0xE0 + r div 4096 = 0xED"
      using hi that by simp
  qed
  moreover have "AppendRune r = [char_of (0xE0 + r div 4096), char_of (0x80 + (r div 64) mod 64),
                  char_of (0x80 + r mod 64)]"
    using assms by (auto simp: AppendRune_def)
  ultimately show ?thesis
    by simp
qed

lemma advance4:
  assumes "0x10000 \<le> r" "r \<le> 0x10FFFF"
  shows "advance (AppendRune r @ p) = 4"
proof -
  have d: "0 \<le> r div 262144" "r div 262144 \<le> 4"
    using div_bounds [of 65536 r 1114111 262144] assms by simp_all
  have m2: "0 \<le> (r div 4096) mod 64" "(r div 4096) mod 64 < 64"
    by simp_all
  have m1: "0 \<le> (r div 64) mod 64" "(r div 64) mod 64 < 64"
    by simp_all
  have m: "0 \<le> r mod 64" "r mod 64 < 64"
    by simp_all
  have lo: "16 \<le> (r div 4096) mod 64" if "r div 262144 = 0"
  proof -
    have "r < 262144" using div_eq_bounds [OF that] by simp
    then have "16 \<le> r div 4096" "r div 4096 \<le> 63"
      using div_bounds [of 65536 r 262143 4096] assms by simp_all
    then show ?thesis by simp
  qed
  have hi: "(r div 4096) mod 64 \<le> 15" if "r div 262144 = 4"
  proof -
    have "1048576 \<le> r" using div_eq_bounds [OF that] by simp
    then have "256 \<le> r div 4096" "r div 4096 \<le> 271"
      using div_bounds [of 1048576 r 1114111 4096] assms by simp_all
    then have "(r div 4096) mod 64 = r div 4096 - 256"
      using mod_shift [of 4 "r div 4096"] by simp
    then show ?thesis using \<open>r div 4096 \<le> 271\<close> by simp
  qed
  have b0: "(of_char (char_of (0xF0 + r div 262144)) :: int) = 0xF0 + r div 262144"
    using d by (intro byte_id) linarith+
  have b1: "(of_char (char_of (0x80 + (r div 4096) mod 64)) :: int) = 0x80 + (r div 4096) mod 64"
    using m2 by (intro byte_id) linarith+
  have b2: "(of_char (char_of (0x80 + (r div 64) mod 64)) :: int) = 0x80 + (r div 64) mod 64"
    using m1 by (intro byte_id) linarith+
  have b3: "(of_char (char_of (0x80 + r mod 64)) :: int) = 0x80 + r mod 64"
    using m by (intro byte_id) linarith+
  have "advance (char_of (0xF0 + r div 262144) # char_of (0x80 + (r div 4096) mod 64)
                  # char_of (0x80 + (r div 64) mod 64) # char_of (0x80 + r mod 64) # p) = 4"
  proof (rule advance_four [OF b0 b1 b2 b3])
    show "0xF0 \<le> 0xF0 + r div 262144" "0xF0 + r div 262144 \<le> 0xF4"
      using d by simp_all
    show "0x80 \<le> 0x80 + (r div 4096) mod 64" "0x80 + (r div 4096) mod 64 \<le> 0xBF"
      using m2 by simp_all
    show "0x80 \<le> 0x80 + (r div 64) mod 64" "0x80 + (r div 64) mod 64 \<le> 0xBF"
      using m1 by simp_all
    show "0x80 \<le> 0x80 + r mod 64" "0x80 + r mod 64 \<le> 0xBF"
      using m by simp_all
    show "0x90 \<le> 0x80 + (r div 4096) mod 64" if "0xF0 + r div 262144 = 0xF0"
      using lo that by simp
    show "0x80 + (r div 4096) mod 64 \<le> 0x8F" if "0xF0 + r div 262144 = 0xF4"
      using hi that by simp
  qed
  moreover have "AppendRune r = [char_of (0xF0 + r div 262144), char_of (0x80 + (r div 4096) mod 64),
                  char_of (0x80 + (r div 64) mod 64), char_of (0x80 + r mod 64)]"
    using assms by (simp add: AppendRune_def)
  ultimately show ?thesis
    by simp
qed

lemma advance_RuneError: "advance (AppendRune RuneError @ p) = 3"
  by (simp add: RuneError_def advance3)

lemma length_AppendRune:
  "length (AppendRune r) =
     (if 0 \<le> r \<and> r \<le> 0x7F then 1 else if 0 \<le> r \<and> r \<le> 0x7FF then 2
      else if r < 0 \<or> 0x10FFFF < r \<or> (0xD800 \<le> r \<and> r \<le> 0xDFFF) then 3
      else if r \<le> 0xFFFF then 3 else 4)"
  by (simp add: AppendRune_def)

lemma advance_AppendRune: "advance (AppendRune r @ p) = length (AppendRune r)"
proof (cases "valid_rune r")
  case False
  then show ?thesis
    using advance_RuneError [of p] AppendRune_invalid [of r]
    by (simp add: length_AppendRune RuneError_def valid_rune_def)
next
  case True
  then consider "r \<le> 0x7F" | "0x80 \<le> r" "r \<le> 0x7FF" | "0x800 \<le> r" "r \<le> 0xFFFF" | "0x10000 \<le> r"
    by linarith
  then show ?thesis
  proof cases
    case 1
    then show ?thesis using True advance1 [of r p] by (simp add: length_AppendRune valid_rune_def)
  next
    case 2
    then show ?thesis using True advance2 [of r p] by (simp add: length_AppendRune valid_rune_def)
  next
    case 3
    then show ?thesis using True advance3 [of r p] by (simp add: length_AppendRune valid_rune_def)
  next
    case 4
    then show ?thesis using True advance4 [of r p] by (simp add: length_AppendRune valid_rune_def)
  qed
qed

lemma RuneCount_AppendRune [simp]: "RuneCount (AppendRune r @ p) = Suc (RuneCount p)"
  by (subst RuneCount.simps) (simp add: advance_AppendRune)

text \<open>The encoding of a sequence of runes.\<close>

definition utf8 :: "rune list \<Rightarrow> string" where
  "utf8 rs = concat (map AppendRune rs)"

lemma RuneCount_utf8_append [simp]: "RuneCount (utf8 rs @ p) = length rs + RuneCount p"
  by (induction rs) (simp_all add: utf8_def)

lemma RuneCount_utf8 [simp]: "RuneCount (utf8 rs) = length rs"
  using RuneCount_utf8_append [of rs "[]"] by simp

section \<open>Running the Scanner on a text\<close>

text \<open>
  \<open>strings.NewReader(text)\<close> for an ASCII text: each byte is read as one rune, and the
  reader returns \<open>io.EOF\<close> after the last one.
\<close>

definition ascii :: "string \<Rightarrow> rune list" where
  "ascii str = map of_char str"

definition text_source :: "string \<Rightarrow> RuneScanner" where
  "text_source str = \<lparr>pending = ascii str, final = EOF\<rparr>"

lemmas run_simps = ReadLine_def read_loop.simps iteration_def consume_eq commit_eq
  flushed_eq case_flushWord NewScanner_def SetPrefix_def SetTabWidth_def text_source_def ascii_def
  IsSpace_def AppendRune_def empty_buffer_def RuneCount_ascii
  String_def Reset_def Let_def char_of_def maxAlloc_def

subsection \<open>Errors of ReadLine\<close>

lemma consume_error:
  "consume s = Decided (Return s' ret (Some e)) \<Longrightarrow>
     ret = [] \<and> err s' = Some e \<and> e = final (rdr s) \<and> e \<noteq> EOF"
  by (auto simp: consume_eq Let_def split: if_splits list.splits)

lemma commit_error:
  "commit s = Return s' ret (Some e) \<Longrightarrow>
     ret = [] \<and> err s' = Some e \<and> e = final (rdr s) \<and> e \<noteq> EOF"
  by (auto simp: commit_eq Let_def split: if_splits list.splits)

lemma iteration_error:
  "iteration s = Return s' ret (Some e) \<Longrightarrow>
     ret = [] \<and> err s' = Some e \<and> e = final (rdr s) \<and> e \<noteq> EOF"
  by (auto simp: iteration_def split: scanned.splits
      dest!: consume_error commit_error consume_Check)





subsection \<open>Well-formed strings\<close>

lemma first_size: "first c = Some (sz, lo, hi) \<Longrightarrow> sz = 2 \<or> sz = 3 \<or> sz = 4"
  by (auto simp: first_def split: if_splits)

lemma advance_pos: "0 < advance p"
proof (cases "first (of_char (p ! 0))")
  case None
  then show ?thesis by (simp add: advance_def Let_def)
next
  case (Some t)
  obtain sz lo hi where t: "t = (sz, lo, hi)" by (cases t)
  have "sz = 2 \<or> sz = 3 \<or> sz = 4" using Some t first_size by blast
  then show ?thesis using Some t by (auto simp: advance_def Let_def)
qed

lemma advance_le_length:
  assumes "p \<noteq> []"
  shows "advance p \<le> length p"
proof -
  have l: "1 \<le> length p" using assms by (cases p) simp_all
  show ?thesis
  proof (cases "first (of_char (p ! 0))")
    case None
    then show ?thesis using l by (simp add: advance_def Let_def)
  next
    case (Some t)
    obtain sz lo hi where t: "t = (sz, lo, hi)" by (cases t)
    have "sz = 2 \<or> sz = 3 \<or> sz = 4" using Some t first_size by blast
    then show ?thesis using l Some t by (auto simp: advance_def Let_def)
  qed
qed

text \<open>
  A string is well formed when the loop of \<open>RuneCount\<close> never meets an invalid or a
  short sequence in it: every round is at an ASCII byte or advances over a whole
  sequence of two to four bytes.
\<close>

function well_formed :: "string \<Rightarrow> bool" where
  "well_formed p =
     (if p = [] then True
      else ((of_char (p ! 0) :: int) < 0x80 \<or> 1 < advance p) \<and> well_formed (drop (advance p) p))"
  by pat_completeness auto
termination
  by (relation "measure length") (auto simp: advance_pos)

declare well_formed.simps [simp del]

lemma advance_append:
  assumes "p \<noteq> []" "(of_char (p ! 0) :: int) < 0x80 \<or> 1 < advance p"
  shows "advance (p @ q) = advance p"
proof -
  have l: "1 \<le> length p" using assms(1) by (cases p) simp_all
  then have h: "(p @ q) ! 0 = p ! 0" using assms(1) by (simp add: nth_append)
  show ?thesis
  proof (cases "(of_char (p ! 0) :: int) < 0x80")
    case True
    then show ?thesis by (simp add: advance_def Let_def h)
  next
    case False
    then have a: "1 < advance p" using assms(2) by simp
    show ?thesis
    proof (cases "first (of_char (p ! 0))")
      case None
      then show ?thesis using a False by (simp add: advance_def Let_def)
    next
      case (Some t)
      obtain sz lo hi where t: "t = (sz, lo, hi)" by (cases t)
      have sz: "sz = 2 \<or> sz = 3 \<or> sz = 4" using Some t first_size by blast
      have len: "sz \<le> length p"
        using a False Some t by (auto simp: advance_def Let_def split: if_splits)
      from sz show ?thesis
      proof (elim disjE)
        assume "sz = 2"
        then show ?thesis using len False Some t h by (simp add: advance_def Let_def nth_append)
      next
        assume "sz = 3"
        then show ?thesis using len False Some t h by (simp add: advance_def Let_def nth_append)
      next
        assume "sz = 4"
        then show ?thesis using len False Some t h by (simp add: advance_def Let_def nth_append)
      qed
    qed
  qed
qed

lemma RuneCount_append:
  "well_formed p \<Longrightarrow> RuneCount (p @ q) = RuneCount p + RuneCount q"
proof (induction p rule: well_formed.induct)
  case (1 p)
  show ?case
  proof (cases "p = []")
    case True
    then show ?thesis by simp
  next
    case False
    then have h: "(of_char (p ! 0) :: int) < 0x80 \<or> 1 < advance p" "well_formed (drop (advance p) p)"
      using "1.prems" by (simp_all add: well_formed.simps [of p])
    have "RuneCount (p @ q) = Suc (RuneCount (drop (advance p) (p @ q)))"
      using False advance_append [OF False h(1), of q] by (simp add: RuneCount.simps [of "p @ q"])
    also have "drop (advance p) (p @ q) = drop (advance p) p @ q"
      using advance_le_length [OF False] by simp
    also have "Suc (RuneCount (drop (advance p) p @ q)) = Suc (RuneCount (drop (advance p) p)) + RuneCount q"
      using "1.IH" [OF False h(2)] by simp
    also have "Suc (RuneCount (drop (advance p) p)) = RuneCount p"
      using False by (simp add: RuneCount.simps [of p])
    finally show ?thesis .
  qed
qed

lemma well_formed_append:
  "well_formed p \<Longrightarrow> well_formed q \<Longrightarrow> well_formed (p @ q)"
proof (induction p rule: well_formed.induct)
  case (1 p)
  show ?case
  proof (cases "p = []")
    case True
    then show ?thesis using "1.prems" by simp
  next
    case False
    then have h: "(of_char (p ! 0) :: int) < 0x80 \<or> 1 < advance p" "well_formed (drop (advance p) p)"
      using "1.prems" by (simp_all add: well_formed.simps [of p])
    have a: "advance (p @ q) = advance p"
      by (rule advance_append [OF False h(1)])
    have d: "drop (advance p) (p @ q) = drop (advance p) p @ q"
      using advance_le_length [OF False] by simp
    have "well_formed (drop (advance p) p @ q)"
      using "1.IH" [OF False h(2)] "1.prems"(2) by simp
    then show ?thesis
      using False h(1) a d by (simp add: well_formed.simps [of "p @ q"] nth_append)
  qed
qed

lemma AppendRune_ascii: "0 \<le> r \<Longrightarrow> r \<le> 0x7F \<Longrightarrow> AppendRune r = [char_of r]"
  by (simp add: AppendRune_def)

lemma well_formed_AppendRune: "well_formed (AppendRune r)"
proof -
  have a: "advance (AppendRune r) = length (AppendRune r)"
    using advance_AppendRune [of r "[]"] by simp
  have "(of_char (AppendRune r ! 0) :: int) < 0x80 \<or> 1 < advance (AppendRune r)"
  proof (cases "0 \<le> r \<and> r \<le> 0x7F")
    case True
    then show ?thesis by (simp add: AppendRune_ascii)
  next
    case False
    then show ?thesis unfolding a by (auto simp: length_AppendRune)
  qed
  then show ?thesis
    using a by (simp add: well_formed.simps [of "AppendRune r"] well_formed.simps [of "[]"])
qed


lemma well_formed_Nil [simp]: "well_formed []"
  by (simp add: well_formed.simps)

section \<open>Sequences of operations on two runeBuffers\<close>

text \<open>
  An operation names the buffer it is called on; \<open>OpWriteTo\<close> transfers that buffer
  into the other one.
\<close>

datatype buffer_id = Fst | Snd

datatype operation =
  OpWriteRune buffer_id rune
| OpWriteString buffer_id string
| OpWriteTo buffer_id
| OpReset buffer_id

fun perform :: "operation \<Rightarrow> runeBuffer \<times> runeBuffer \<Rightarrow> runeBuffer \<times> runeBuffer" where
  "perform (OpWriteRune Fst r) (a, b) = (fst (WriteRune a r), b)"
| "perform (OpWriteRune Snd r) (a, b) = (a, fst (WriteRune b r))"
| "perform (OpWriteString Fst str) (a, b) = (fst (WriteString a str), b)"
| "perform (OpWriteString Snd str) (a, b) = (a, fst (WriteString b str))"
| "perform (OpWriteTo Fst) (a, b) = (case rb_WriteTo a b of (a', b', _, _) \<Rightarrow> (a', b'))"
| "perform (OpWriteTo Snd) (a, b) = (case rb_WriteTo b a of (b', a', _, _) \<Rightarrow> (a', b'))"
| "perform (OpReset Fst) (a, b) = (Reset a, b)"
| "perform (OpReset Snd) (a, b) = (a, Reset b)"

fun well_formed_argument :: "operation \<Rightarrow> bool" where
  "well_formed_argument (OpWriteString _ str) = well_formed str"
| "well_formed_argument _ = True"

text \<open>A buffer whose contents are well formed and whose count is their number of runes.\<close>

definition exact :: "runeBuffer \<Rightarrow> bool" where
  "exact b = (well_formed (buf b) \<and> runeCount b = int (RuneCount (buf b)))"

lemma exact_empty: "exact empty_buffer"
  by (simp add: exact_def empty_buffer_def)

lemma exact_Reset: "exact (Reset b)"
  by (simp add: exact_def Reset_def)

lemma RuneCount_AppendRune_alone [simp]: "RuneCount (AppendRune r) = Suc 0"
  using RuneCount_AppendRune [of r "[]"] by simp

lemma exact_WriteRune: "exact b \<Longrightarrow> exact (fst (WriteRune b r))"
  by (simp add: exact_def WriteRune_def Buffer_WriteRune_def well_formed_append
      well_formed_AppendRune RuneCount_append)

lemma exact_WriteString: "exact b \<Longrightarrow> well_formed str \<Longrightarrow> exact (fst (WriteString b str))"
  by (simp add: exact_def WriteString_def Buffer_WriteString_def well_formed_append RuneCount_append)

lemma rb_WriteTo_eq:
  "rb_WriteTo b w =
     (\<lparr>buf = [], runeCount = 0\<rparr>,
      \<lparr>buf = buf w @ buf b, runeCount = runeCount w + runeCount b\<rparr>,
      int (length (buf b)), None)"
  by (simp add: rb_WriteTo_def Buffer_WriteTo_def)

lemma exact_WriteTo:
  "exact b \<Longrightarrow> exact w \<Longrightarrow> rb_WriteTo b w = (b', w', n, e) \<Longrightarrow> exact b' \<and> exact w'"
  by (auto simp: rb_WriteTo_eq exact_def well_formed_append RuneCount_append)

lemma exact_perform:
  "exact a \<Longrightarrow> exact b \<Longrightarrow> well_formed_argument op \<Longrightarrow> perform op (a, b) = (a', b') \<Longrightarrow>
   exact a' \<and> exact b'"
  by (cases "(op, (a, b))" rule: perform.cases)
    (auto simp: exact_WriteRune exact_WriteString exact_Reset dest: exact_WriteTo
       split: prod.splits)

lemma exact_fold:
  "exact a \<Longrightarrow> exact b \<Longrightarrow> list_all well_formed_argument ops \<Longrightarrow>
   fold perform ops (a, b) = (a', b') \<Longrightarrow> exact a' \<and> exact b'"
proof (induction ops arbitrary: a b)
  case Nil
  then show ?case by simp
next
  case (Cons op ops)
  obtain a1 b1 where p: "perform op (a, b) = (a1, b1)"
    by (cases "perform op (a, b)")
  then have "exact a1 \<and> exact b1"
    using Cons.prems exact_perform [of a b op a1 b1] by simp
  then show ?case
    using Cons.IH [of a1 b1] Cons.prems p by simp
qed

subsection \<open>The bytes of an encoded rune\<close>

text \<open>A continuation byte, \<open>10xxxxxx\<close>.\<close>

definition continuation :: "char \<Rightarrow> bool" where
  "continuation c = (0x80 \<le> (of_char c :: int) \<and> (of_char c :: int) \<le> 0xBF)"

lemma continuation_char_of:
  "0x80 \<le> x \<Longrightarrow> x \<le> 0xBF \<Longrightarrow> continuation (char_of (x::int))"
  by (simp add: continuation_def)

lemma lead_char_of:
  "0 \<le> x \<Longrightarrow> x < 0x80 \<or> 0xC0 \<le> x \<Longrightarrow> x < 256 \<Longrightarrow> \<not> continuation (char_of (x::int))"
  by (auto simp: continuation_def)

lemma AppendRune_shape:
  "\<exists>c cs. AppendRune r = c # cs \<and> \<not> continuation c \<and> (\<forall>x\<in>set cs. continuation x)
          \<and> (cs = [] \<longrightarrow> 0 \<le> r \<and> r \<le> 0x7F \<and> c = char_of r)
          \<and> (cs \<noteq> [] \<longrightarrow> 0xC0 \<le> (of_char c :: int))"
proof -
  consider (one) "0 \<le> r" "r \<le> 0x7F"
    | (two) "0x80 \<le> r" "r \<le> 0x7FF"
    | (bad) "\<not> valid_rune r"
    | (three) "0x800 \<le> r" "r \<le> 0xFFFF" "\<not> (0xD800 \<le> r \<and> r \<le> 0xDFFF)"
    | (four) "0x10000 \<le> r" "r \<le> 0x10FFFF"
    unfolding valid_rune_def by linarith
  then show ?thesis
  proof cases
    case one
    then show ?thesis
      by (simp add: AppendRune_def continuation_def)
  next
    case two
    have d: "2 \<le> r div 64" "r div 64 \<le> 31"
      using div_bounds [of 128 r 2047 64] two by simp_all
    have m: "0 \<le> r mod 64" "r mod 64 < 64"
      by simp_all
    have "AppendRune r = [char_of (0xC0 + r div 64), char_of (0x80 + r mod 64)]"
      using two by (simp add: AppendRune_def)
    moreover have "(of_char (char_of (0xC0 + r div 64)) :: int) = 0xC0 + r div 64"
      using d by (intro byte_id) linarith+
    moreover have "continuation (char_of (0x80 + r mod 64))"
      using m by (intro continuation_char_of) linarith+
    ultimately show ?thesis
      using d by (simp add: continuation_def del: of_char_of)
  next
    case bad
    have "AppendRune r = [CHR 0xEF, CHR 0xBF, CHR 0xBD]"
      using bad by (auto simp: AppendRune_def valid_rune_def)
    then show ?thesis
      by (simp add: continuation_def)
  next
    case three
    have d: "0 \<le> r div 4096" "r div 4096 \<le> 15"
      using div_bounds [of 2048 r 65535 4096] three by simp_all
    have m1: "0 \<le> (r div 64) mod 64" "(r div 64) mod 64 < 64"
      by simp_all
    have m: "0 \<le> r mod 64" "r mod 64 < 64"
      by simp_all
    have "AppendRune r = [char_of (0xE0 + r div 4096), char_of (0x80 + (r div 64) mod 64),
                  char_of (0x80 + r mod 64)]"
      using three by (auto simp: AppendRune_def)
    moreover have "(of_char (char_of (0xE0 + r div 4096)) :: int) = 0xE0 + r div 4096"
      using d by (intro byte_id) linarith+
    moreover have "continuation (char_of (0x80 + (r div 64) mod 64))"
      using m1 by (intro continuation_char_of) linarith+
    moreover have "continuation (char_of (0x80 + r mod 64))"
      using m by (intro continuation_char_of) linarith+
    ultimately show ?thesis
      using d by (simp add: continuation_def del: of_char_of)
  next
    case four
    have d: "0 \<le> r div 262144" "r div 262144 \<le> 4"
      using div_bounds [of 65536 r 1114111 262144] four by simp_all
    have m2: "0 \<le> (r div 4096) mod 64" "(r div 4096) mod 64 < 64"
      by simp_all
    have m1: "0 \<le> (r div 64) mod 64" "(r div 64) mod 64 < 64"
      by simp_all
    have m: "0 \<le> r mod 64" "r mod 64 < 64"
      by simp_all
    have "AppendRune r = [char_of (0xF0 + r div 262144), char_of (0x80 + (r div 4096) mod 64),
                  char_of (0x80 + (r div 64) mod 64), char_of (0x80 + r mod 64)]"
      using four by (simp add: AppendRune_def)
    moreover have "(of_char (char_of (0xF0 + r div 262144)) :: int) = 0xF0 + r div 262144"
      using d by (intro byte_id) linarith+
    moreover have "continuation (char_of (0x80 + (r div 4096) mod 64))"
      using m2 by (intro continuation_char_of) linarith+
    moreover have "continuation (char_of (0x80 + (r div 64) mod 64))"
      using m1 by (intro continuation_char_of) linarith+
    moreover have "continuation (char_of (0x80 + r mod 64))"
      using m by (intro continuation_char_of) linarith+
    ultimately show ?thesis
      using d by (simp add: continuation_def del: of_char_of)
  qed
qed

definition newline_free :: "string \<Rightarrow> bool" where
  "newline_free l = (CHR 0x0A \<notin> set l)"

lemma newline_in_AppendRune: "CHR 0x0A \<in> set (AppendRune r) \<Longrightarrow> r = 0x0A"
proof -
  assume a: "CHR 0x0A \<in> set (AppendRune r)"
  obtain c cs where s: "AppendRune r = c # cs" "\<not> continuation c" "\<forall>x\<in>set cs. continuation x"
      "cs = [] \<longrightarrow> 0 \<le> r \<and> r \<le> 0x7F \<and> c = char_of r" "cs \<noteq> [] \<longrightarrow> 0xC0 \<le> (of_char c :: int)"
    using AppendRune_shape [of r] by blast
  have nc: "\<not> continuation (CHR 0x0A)"
    by (simp add: continuation_def)
  have "CHR 0x0A = c"
    using a s(1,3) nc by auto
  moreover have "cs = []"
    using s(5) \<open>CHR 0x0A = c\<close> by auto
  ultimately have "0 \<le> r" "r \<le> 0x7F" "char_of r = CHR 0x0A"
    using s(4) by simp_all
  then have "r mod 256 = 10"
    by (simp add: char_of_eq_iff take_bit_eq_mod)
  then show "r = 0x0A"
    using \<open>0 \<le> r\<close> \<open>r \<le> 0x7F\<close> by simp
qed

lemma newline_free_AppendRune: "r \<noteq> 0x0A \<Longrightarrow> newline_free (AppendRune r)"
  using newline_in_AppendRune [of r] by (auto simp: newline_free_def)

section \<open>Invariants of the Scanner\<close>

text \<open>
  The pending word holds the encodings of runes that are not white space, and its
  count is their number.
\<close>

definition word_ok :: "runeBuffer \<Rightarrow> bool" where
  "word_ok w = (\<exists>rs. buf w = utf8 rs \<and> runeCount w = int (length rs) \<and> (\<forall>r\<in>set rs. \<not> IsSpace r))"

text \<open>A line that is empty or ends with the encoding of a rune that is not white space.\<close>

definition ends_well :: "string \<Rightarrow> bool" where
  "ends_well l = (l = [] \<or> (\<exists>bs r. l = bs @ AppendRune r \<and> \<not> IsSpace r))"

text \<open>
  What holds at the head of every round of the loop of \<open>ReadLine\<close>: the counts are not
  negative, the pending word is as above, the line ends with a rune of a word, and a
  newline is in none of the buffers (in the line only if the prefix has one).
\<close>

definition invariant :: "Scanner \<Rightarrow> bool" where
  "invariant s = (0 \<le> runeCount (line s) \<and> 0 \<le> runeCount (space s) \<and> word_ok (word s)
            \<and> ends_well (buf (line s)) \<and> newline_free (buf (space s))
            \<and> (newline_free (prefix s) \<longrightarrow> newline_free (buf (line s))))"

text \<open>Between two calls of \<open>ReadLine\<close> the line buffer of a Scanner that is not terminal is empty.\<close>

definition idle :: "Scanner \<Rightarrow> bool" where
  "idle s = (err s = None \<longrightarrow> invariant s \<and> buf (line s) = [] \<and> runeCount (line s) = 0)"

lemma utf8_Nil [simp]: "utf8 [] = []"
  by (simp add: utf8_def)

lemma utf8_snoc: "utf8 (rs @ [r]) = utf8 rs @ AppendRune r"
  by (simp add: utf8_def)

lemma utf8_eq_Nil [simp]: "utf8 rs = [] \<longleftrightarrow> rs = []"
  by (cases rs) (simp_all add: utf8_def)

lemma word_ok_empty [simp]: "word_ok \<lparr>buf = [], runeCount = 0\<rparr>"
  unfolding word_ok_def by (rule exI [of _ "[]"]) simp

lemma word_ok_append:
  assumes "word_ok w" "\<not> IsSpace c"
  shows "word_ok \<lparr>buf = buf w @ AppendRune c, runeCount = runeCount w + 1\<rparr>"
proof -
  obtain rs where rs: "buf w = utf8 rs" "runeCount w = int (length rs)" "\<forall>r\<in>set rs. \<not> IsSpace r"
    using assms(1) unfolding word_ok_def by blast
  show ?thesis
    unfolding word_ok_def
    by (rule exI [of _ "rs @ [c]"]) (use rs assms(2) in \<open>simp add: utf8_snoc\<close>)
qed

lemma word_ok_count: "word_ok w \<Longrightarrow> 0 \<le> runeCount w"
  unfolding word_ok_def by auto

lemma word_ok_zero: "word_ok w \<Longrightarrow> \<not> 0 < runeCount w \<Longrightarrow> buf w = [] \<and> runeCount w = 0"
  unfolding word_ok_def by auto

lemma word_ok_ends:
  assumes "word_ok w" "0 < runeCount w"
  shows "\<exists>bs r. buf w = bs @ AppendRune r \<and> \<not> IsSpace r"
proof -
  obtain rs where rs: "buf w = utf8 rs" "runeCount w = int (length rs)" "\<forall>r\<in>set rs. \<not> IsSpace r"
    using assms(1) unfolding word_ok_def by blast
  then have "rs \<noteq> []" using assms(2) by auto
  then obtain qs q where "rs = qs @ [q]"
    by (meson rev_exhaust)
  then show ?thesis
    using rs by (auto simp: utf8_snoc)
qed

lemma IsSpace_newline [simp]: "IsSpace 0x0A"
  by (simp add: IsSpace_def)

lemma newline_free_utf8: "\<forall>r\<in>set rs. r \<noteq> 0x0A \<Longrightarrow> newline_free (utf8 rs)"
  using newline_in_AppendRune by (auto simp: newline_free_def utf8_def)

lemma word_ok_newline_free: "word_ok w \<Longrightarrow> newline_free (buf w)"
proof -
  assume "word_ok w"
  then obtain rs where rs: "buf w = utf8 rs" "\<forall>r\<in>set rs. \<not> IsSpace r"
    unfolding word_ok_def by blast
  then have "\<forall>r\<in>set rs. r \<noteq> 0x0A"
    using IsSpace_newline by auto
  then show ?thesis
    using rs(1) newline_free_utf8 by simp
qed

lemma newline_free_append [simp]:
  "newline_free (a @ b) \<longleftrightarrow> newline_free a \<and> newline_free b"
  by (auto simp: newline_free_def)

lemma newline_free_Nil [simp]: "newline_free []"
  by (simp add: newline_free_def)

lemma newline_free_spaces [simp]: "newline_free (replicate n CHR '' '')"
  by (simp add: newline_free_def)

lemma ends_well_Nil [simp]: "ends_well []"
  by (simp add: ends_well_def)

lemma ends_well_append:
  "(\<exists>bs r. w = bs @ AppendRune r \<and> \<not> IsSpace r) \<Longrightarrow> ends_well (l @ w)"
proof -
  assume "\<exists>bs r. w = bs @ AppendRune r \<and> \<not> IsSpace r"
  then obtain bs r where "w = bs @ AppendRune r" "\<not> IsSpace r" by blast
  then have "l @ w = (l @ bs) @ AppendRune r \<and> \<not> IsSpace r" by simp
  then show ?thesis unfolding ends_well_def by blast
qed

lemma invariant_flushed:
  assumes "invariant s"
  shows "invariant (flushed s)" "buf (word (flushed s)) = []" "runeCount (word (flushed s)) = 0"
proof -
  have w: "word_ok (word s)" using assms by (simp add: invariant_def)
  show "buf (word (flushed s)) = []" "runeCount (word (flushed s)) = 0"
    using word_ok_zero [OF w] by (simp_all add: flushed_eq)
  show "invariant (flushed s)"
  proof (cases "0 < runeCount (word s)")
    case False
    then show ?thesis using assms by (simp add: flushed_eq)
  next
    case True
    have e: "ends_well (buf (line s) @ (if runeCount (line s) = 0 then prefix s else [])
                          @ buf (space s) @ buf (word s))"
      using ends_well_append [OF word_ok_ends [OF w True],
          of "buf (line s) @ (if runeCount (line s) = 0 then prefix s else []) @ buf (space s)"]
      by simp
    show ?thesis
      using True assms e word_ok_newline_free [OF w] word_ok_count [OF w]
      by (simp add: flushed_eq invariant_def)
  qed
qed

lemma flushed_rdr: "flushed (s\<lparr>rdr := x\<rparr>) = (flushed s)\<lparr>rdr := x\<rparr>"
  by (simp add: flushed_eq)

lemma invariant_rdr [simp]: "invariant (s\<lparr>rdr := x\<rparr>) = invariant s"
  by (simp add: invariant_def)

lemma invariant_flags [simp]:
  "invariant (s\<lparr>skipNextWS := b\<rparr>) = invariant s" "invariant (s\<lparr>needNewline := b\<rparr>) = invariant s"
  by (simp_all add: invariant_def)

lemma invariant_space_reset: "invariant s \<Longrightarrow> invariant (s\<lparr>space := \<lparr>buf = [], runeCount = 0\<rparr>\<rparr>)"
  by (simp add: invariant_def)

lemma invariant_line_reset: "invariant s \<Longrightarrow> invariant (s\<lparr>line := \<lparr>buf = [], runeCount = 0\<rparr>\<rparr>)"
  by (simp add: invariant_def)

lemma invariant_same:
  "line t = line s \<Longrightarrow> space t = space s \<Longrightarrow> word t = word s \<Longrightarrow> prefix t = prefix s \<Longrightarrow>
   invariant t = invariant s"
  by (simp add: invariant_def)

lemma invariant_space_write:
  "invariant s \<Longrightarrow> newline_free b \<Longrightarrow> 0 \<le> k \<Longrightarrow>
   invariant (s\<lparr>space := \<lparr>buf = buf (space s) @ b, runeCount = runeCount (space s) + k\<rparr>\<rparr>)"
  by (simp add: invariant_def)

lemma invariant_word_rune:
  "invariant s \<Longrightarrow> \<not> IsSpace c \<Longrightarrow>
   invariant (s\<lparr>word := \<lparr>buf = buf (word s) @ AppendRune c, runeCount = runeCount (word s) + 1\<rparr>\<rparr>)"
  by (simp add: invariant_def word_ok_append)

lemma consume_Check_cases:
  assumes "consume s = Check s'"
  obtains (blank) c cs where "pending (rdr s) = c # cs" "IsSpace c" "c \<noteq> 0x0A" "c \<noteq> 0x09"
      "\<not> skipNextWS s"
      "s' = (flushed s)
              \<lparr>rdr := (rdr s)\<lparr>pending := cs\<rparr>,
               space := \<lparr>buf = buf (space (flushed s)) @ AppendRune c,
                          runeCount = runeCount (space (flushed s)) + 1\<rparr>\<rparr>"
    | (tab) cs n where "pending (rdr s) = 0x09 # cs" "\<not> skipNextWS s" "0 \<le> n"
      "n = (if tabWidth s \<noteq> 0 then tabWidth s - runeCount (line (flushed s)) smod tabWidth s else 0)"
      "s' = (flushed s)
              \<lparr>rdr := (rdr s)\<lparr>pending := cs\<rparr>,
               space := \<lparr>buf = buf (space (flushed s)) @ replicate (nat n) CHR '' '',
                          runeCount = runeCount (space (flushed s)) + n\<rparr>\<rparr>"
    | (letter) c cs where "pending (rdr s) = c # cs" "\<not> IsSpace c" "\<not> needNewline s"
      "s' = s\<lparr>rdr := (rdr s)\<lparr>pending := cs\<rparr>,
               word := \<lparr>buf = buf (word s) @ AppendRune c, runeCount = runeCount (word s) + 1\<rparr>,
               skipNextWS := False\<rparr>"
proof -
  obtain c cs where p: "pending (rdr s) = c # cs"
    using assms by (cases "pending (rdr s)") (auto simp: consume_eq split: if_splits)
  show ?thesis
  proof (cases "IsSpace c")
    case False
    then have "\<not> needNewline s"
      "s' = s\<lparr>rdr := (rdr s)\<lparr>pending := cs\<rparr>,
               word := \<lparr>buf = buf (word s) @ AppendRune c, runeCount = runeCount (word s) + 1\<rparr>,
               skipNextWS := False\<rparr>"
      using assms p by (simp_all add: consume_eq Let_def split: if_splits)
    then show ?thesis
      using letter [of c cs] p False by simp
  next
    case True
    have c: "c \<noteq> 0x0A" "\<not> skipNextWS s"
      using assms p True by (simp_all add: consume_eq Let_def flushed_rdr split: if_splits)
    show ?thesis
    proof (cases "c = 0x09")
      case False
      then have "s' = (flushed s)
              \<lparr>rdr := (rdr s)\<lparr>pending := cs\<rparr>,
               space := \<lparr>buf = buf (space (flushed s)) @ AppendRune c,
                          runeCount = runeCount (space (flushed s)) + 1\<rparr>\<rparr>"
        using assms p True c by (simp add: consume_eq Let_def flushed_rdr)
      then show ?thesis
        using blank [of c cs] p True c False by simp
    next
      case t: True
      let ?n = "if tabWidth s \<noteq> 0 then tabWidth s - runeCount (line (flushed s)) smod tabWidth s else 0"
      have n: "0 \<le> ?n"
        using assms p True t c by (simp add: consume_eq Let_def flushed_rdr split: if_splits)
      then have "s' = (flushed s)
              \<lparr>rdr := (rdr s)\<lparr>pending := cs\<rparr>,
               space := \<lparr>buf = buf (space (flushed s)) @ replicate (nat ?n) CHR '' '',
                          runeCount = runeCount (space (flushed s)) + ?n\<rparr>\<rparr>"
        using assms p True t c by (simp add: consume_eq Let_def flushed_rdr split: if_splits)
      then show ?thesis
        using tab [of cs ?n] p t c n by simp
    qed
  qed
qed


lemma consume_inv_Check:
  assumes "invariant s" "consume s = Check s'"
  shows "invariant s' \<and> prefix s' = prefix s"
  using assms(2)
proof (cases rule: consume_Check_cases)
  case (blank c cs)
  have "invariant (flushed s)"
    using assms(1) by (rule invariant_flushed(1))
  then have "invariant ((flushed s)\<lparr>space := \<lparr>buf = buf (space (flushed s)) @ AppendRune c,
                          runeCount = runeCount (space (flushed s)) + 1\<rparr>\<rparr>)"
    by (intro invariant_space_write newline_free_AppendRune blank(3)) simp_all
  moreover have "invariant s' = invariant ((flushed s)\<lparr>space := \<lparr>buf = buf (space (flushed s)) @ AppendRune c,
                          runeCount = runeCount (space (flushed s)) + 1\<rparr>\<rparr>)"
    unfolding blank(6) by (rule invariant_same) simp_all
  ultimately show ?thesis
    unfolding blank(6) by simp
next
  case (tab cs n)
  have "invariant (flushed s)"
    using assms(1) by (rule invariant_flushed(1))
  then have "invariant ((flushed s)\<lparr>space := \<lparr>buf = buf (space (flushed s)) @ replicate (nat n) CHR '' '',
                          runeCount = runeCount (space (flushed s)) + n\<rparr>\<rparr>)"
    by (intro invariant_space_write newline_free_spaces tab(3))
  moreover have "invariant s' = invariant ((flushed s)\<lparr>space := \<lparr>buf = buf (space (flushed s)) @ replicate (nat n) CHR '' '',
                          runeCount = runeCount (space (flushed s)) + n\<rparr>\<rparr>)"
    unfolding tab(5) by (rule invariant_same) simp_all
  ultimately show ?thesis
    unfolding tab(5) by simp
next
  case (letter c cs)
  have "invariant s' = invariant (s\<lparr>word := \<lparr>buf = buf (word s) @ AppendRune c, runeCount = runeCount (word s) + 1\<rparr>\<rparr>)"
    unfolding letter(4) by (rule invariant_same) simp_all
  then show ?thesis
    using invariant_word_rune [OF assms(1) letter(2)] unfolding letter(4) by simp
qed


lemma consume_inv_Continue:
  assumes "invariant s" "consume s = Decided (Continue s')"
  shows "invariant s' \<and> prefix s' = prefix s"
proof -
  obtain c cs where p: "pending (rdr s) = c # cs"
    using assms(2) by (cases "pending (rdr s)") (auto simp: consume_eq split: if_splits)
  have "s' = (flushed s)\<lparr>rdr := (rdr s)\<lparr>pending := cs\<rparr>\<rparr>"
    using assms(2) p by (simp add: consume_eq Let_def flushed_rdr split: if_splits)
  then show ?thesis
    using invariant_flushed(1) [OF assms(1)] by simp
qed

lemma consume_inv_Return:
  assumes "invariant s" "consume s = Decided (Return s' ret None)"
  shows "invariant s' \<and> buf (line s') = [] \<and> runeCount (line s') = 0 \<and> prefix s' = prefix s
           \<and> ends_well ret \<and> (newline_free (prefix s) \<longrightarrow> newline_free ret)"
proof -
  obtain c cs where p: "pending (rdr s) = c # cs"
    using assms(2) by (cases "pending (rdr s)") (auto simp: consume_eq split: if_splits)
  have f1: "invariant (flushed s)"
    using assms(1) by (rule invariant_flushed(1))
  show ?thesis
  proof (cases "IsSpace c")
    case True
    then have s': "s' = (flushed s)\<lparr>rdr := (rdr s)\<lparr>pending := cs\<rparr>, skipNextWS := False,
                           line := \<lparr>buf = [], runeCount = 0\<rparr>,
                           space := \<lparr>buf = [], runeCount = 0\<rparr>\<rparr>"
      and r: "ret = buf (line (flushed s))"
      using assms(2) p by (simp_all add: consume_eq Let_def flushed_rdr split: if_splits)
    show ?thesis
      using f1 unfolding s' r by (simp add: invariant_def)
  next
    case False
    then have s': "s' = s\<lparr>rdr := (rdr s)\<lparr>pending := cs\<rparr>,
                        word := \<lparr>buf = buf (word s) @ AppendRune c,
                                 runeCount = runeCount (word s) + 1\<rparr>,
                        skipNextWS := False, needNewline := False,
                        line := \<lparr>buf = [], runeCount = 0\<rparr>\<rparr>"
      and r: "ret = buf (line s)"
      using assms(2) p by (simp_all add: consume_eq Let_def split: if_splits)
    show ?thesis
      using assms(1) False unfolding s' r by (simp add: invariant_def word_ok_append)
  qed
qed


lemma commit_Continue_form:
  assumes "commit s = Continue s'"
  shows "s' = s
         \<or> (\<exists>t. (t = s \<or> t = flushed s) \<and> line s' = line t \<and> word s' = word t
                \<and> space s' = \<lparr>buf = [], runeCount = 0\<rparr> \<and> prefix s' = prefix s
                \<and> skipNextWS s' \<and> rdr s' = rdr s \<and> limit s' = limit s
                \<and> tabWidth s' = tabWidth s \<and> err s' = err s)"
proof (cases "limit s \<le> runeCount (line s) + runeCount (word s) + runeCount (space s)")
  case False
  then show ?thesis using assms by (simp add: commit_eq)
next
  case True
  show ?thesis
  proof (cases "pending (rdr s)")
    case Nil
    then have "s' = (flushed s)\<lparr>skipNextWS := True, space := \<lparr>buf = [], runeCount = 0\<rparr>\<rparr>"
      using assms True by (simp add: commit_eq split: if_splits)
    then show ?thesis by (intro disjI2 exI [of _ "flushed s"]) simp
  next
    case (Cons c cs)
    define t where "t = (if runeCount (word s) = limit s \<or> IsSpace c then flushed s else s)"
    have "s' = (if c \<noteq> 0x0A \<and> runeCount (space t) < limit s then t\<lparr>needNewline := True\<rparr> else t)
                 \<lparr>skipNextWS := True, space := \<lparr>buf = [], runeCount = 0\<rparr>\<rparr>"
      using assms True Cons unfolding t_def by (simp add: commit_eq Let_def)
    moreover have "t = s \<or> t = flushed s"
      unfolding t_def by simp
    ultimately show ?thesis
      by (intro disjI2 exI [of _ t]) auto
  qed
qed

lemma commit_inv:
  assumes "invariant s" "commit s = Continue s'"
  shows "invariant s' \<and> prefix s' = prefix s"
proof (cases "s' = s")
  case True
  then show ?thesis using assms(1) by simp
next
  case False
  then obtain t where t: "t = s \<or> t = flushed s" "line s' = line t" "word s' = word t"
      "space s' = \<lparr>buf = [], runeCount = 0\<rparr>" "prefix s' = prefix s"
    using commit_Continue_form [OF assms(2)] by blast
  have "invariant t" "prefix t = prefix s"
    using t(1) assms(1) invariant_flushed(1) [OF assms(1)] by auto
  then have "invariant (t\<lparr>space := \<lparr>buf = [], runeCount = 0\<rparr>\<rparr>)"
    by (simp add: invariant_space_reset)
  moreover have "invariant s' = invariant (t\<lparr>space := \<lparr>buf = [], runeCount = 0\<rparr>\<rparr>)"
    by (rule invariant_same) (use t \<open>prefix t = prefix s\<close> in simp_all)
  ultimately show ?thesis
    using t(5) by simp
qed

lemma iteration_inv:
  assumes "invariant s"
  shows "iteration s = Continue s' \<Longrightarrow> invariant s' \<and> prefix s' = prefix s"
    and "iteration s = Return s' ret None \<Longrightarrow>
           invariant s' \<and> buf (line s') = [] \<and> runeCount (line s') = 0 \<and> prefix s' = prefix s
           \<and> ends_well ret \<and> (newline_free (prefix s) \<longrightarrow> newline_free ret)"
proof -
  show "iteration s = Continue s' \<Longrightarrow> invariant s' \<and> prefix s' = prefix s"
  proof -
    assume a: "iteration s = Continue s'"
    show ?thesis
    proof (cases "consume s")
      case (Decided st)
      then show ?thesis
        using a consume_inv_Continue [OF assms, of s'] by (simp add: iteration_def)
    next
      case (Check s1)
      then have "commit s1 = Continue s'"
        using a by (simp add: iteration_def)
      then show ?thesis
        using consume_inv_Check [OF assms Check] commit_inv [of s1 s'] by simp
    qed
  qed
  show "iteration s = Return s' ret None \<Longrightarrow>
           invariant s' \<and> buf (line s') = [] \<and> runeCount (line s') = 0 \<and> prefix s' = prefix s
           \<and> ends_well ret \<and> (newline_free (prefix s) \<longrightarrow> newline_free ret)"
  proof -
    assume a: "iteration s = Return s' ret None"
    show ?thesis
    proof (cases "consume s")
      case (Decided st)
      then show ?thesis
        using a consume_inv_Return [OF assms, of s' ret] by (simp add: iteration_def)
    next
      case (Check s1)
      then have "commit s1 = Return s' ret None"
        using a by (simp add: iteration_def)
      then show ?thesis
        using commit_cases [of s1 "Return s' ret None"] by simp
    qed
  qed
qed

lemma read_loop_inv:
  "invariant s \<Longrightarrow> read_loop s = Done (s', ret, e) \<Longrightarrow>
     ends_well ret \<and> (newline_free (prefix s) \<longrightarrow> newline_free ret) \<and> idle s'"
proof (induction s rule: read_loop.induct)
  case (1 s)
  show ?case
  proof (cases "iteration s")
    case (Continue s1)
    then have "read_loop s1 = Done (s', ret, e)"
      using "1.prems"(2) by (simp add: read_loop.simps [of s])
    then show ?thesis
      using "1.IH" [OF Continue] iteration_inv(1) [OF "1.prems"(1) Continue] by simp
  next
    case (Break s1)
    then have "s' = (flushed s)\<lparr>line := Reset (line (flushed s)), err := Some EOF\<rparr>"
        "ret = buf (line (flushed s))"
      using "1.prems"(2) iteration_Break [OF Break]
      by (simp_all add: read_loop.simps [of s] case_flushWord String_def)
    then show ?thesis
      using invariant_flushed(1) [OF "1.prems"(1)] by (simp add: idle_def invariant_def)
  next
    case (Return s1 r e1)
    then have eq: "s1 = s'" "r = ret" "e1 = e"
      using "1.prems"(2) by (simp_all add: read_loop.simps [of s])
    show ?thesis
    proof (cases e)
      case None
      then show ?thesis
        using iteration_inv(2) [OF "1.prems"(1), of s' ret] Return eq by (simp add: idle_def)
    next
      case (Some x)
      then show ?thesis
        using iteration_error [of s s' ret x] Return eq by (simp add: idle_def)
    qed
  next
    case Panicked
    then show ?thesis
      using "1.prems"(2) by (simp add: read_loop.simps [of s])
  qed
qed

lemma ReadLine_idle:
  assumes "idle s" "ReadLine s = Done (s', ret, e)"
  shows "ends_well ret \<and> (newline_free (prefix s) \<longrightarrow> newline_free ret) \<and> idle s'"
proof (cases "err s")
  case None
  then show ?thesis
    using assms read_loop_inv [of s s' ret e] by (simp add: ReadLine_def idle_def)
next
  case (Some x)
  then show ?thesis
    using assms by (auto simp: ReadLine_def idle_def)
qed

text \<open>
  The states of a Scanner between the calls of its methods: a new Scanner, and the
  state that a call of \<open>SetPrefix\<close>, \<open>SetTabWidth\<close> or \<open>ReadLine\<close> leaves behind.
\<close>

inductive reachable :: "Scanner \<Rightarrow> bool" where
  new: "reachable (NewScanner src lim)"
| set_prefix: "reachable s \<Longrightarrow> reachable (SetPrefix s p)"
| set_tab_width: "reachable s \<Longrightarrow> reachable (SetTabWidth s width)"
| read_line: "reachable s \<Longrightarrow> ReadLine s = Done (s', ret, e) \<Longrightarrow> reachable s'"

text \<open>The states at the head of the loop of \<open>ReadLine\<close> during a call.\<close>

inductive running :: "Scanner \<Rightarrow> bool" where
  start: "reachable s \<Longrightarrow> err s = None \<Longrightarrow> running s"
| round: "running s \<Longrightarrow> iteration s = Continue s' \<Longrightarrow> running s'"

lemma idle_NewScanner: "idle (NewScanner src lim)"
  by (simp add: idle_def invariant_def NewScanner_def empty_buffer_def)

lemma idle_SetPrefix: "idle s \<Longrightarrow> idle (SetPrefix s p)"
  by (simp add: idle_def invariant_def SetPrefix_def)

lemma idle_SetTabWidth: "idle s \<Longrightarrow> idle (SetTabWidth s width)"
  by (simp add: idle_def invariant_def SetTabWidth_def)

lemma reachable_idle: "reachable s \<Longrightarrow> idle s"
proof (induction rule: reachable.induct)
  case (new src lim)
  show ?case by (rule idle_NewScanner)
next
  case (set_prefix s p)
  then show ?case by (simp add: idle_SetPrefix)
next
  case (set_tab_width s width)
  then show ?case by (simp add: idle_SetTabWidth)
next
  case (read_line s s' ret e)
  then show ?case using ReadLine_idle by blast
qed

lemma running_inv: "running s \<Longrightarrow> invariant s \<and> err s = None"
proof (induction rule: running.induct)
  case (start s)
  then show ?case using reachable_idle [of s] by (simp add: idle_def)
next
  case (round s s')
  then show ?case
    using iteration_inv(1) [of s s'] iteration_Continue [of s s'] by simp
qed

text \<open>The sum that the width check compares with the limit.\<close>

definition total :: "Scanner \<Rightarrow> int" where
  "total s = Count (line s) + Count (word s) + Count (space s)"


lemma total_flushed:
  "total (flushed s) =
     total s + (if 0 < Count (word s) \<and> Count (line s) = 0 then int (RuneCount (prefix s)) else 0)"
  by (simp add: total_def Count_def flushed_eq)

section \<open>Draining the lines into a Writer\<close>


text \<open>The Writer has room for \<open>m\<close> more bytes.\<close>

definition fits :: "Writer \<Rightarrow> nat \<Rightarrow> bool" where
  "fits w m = (case room w of None \<Rightarrow> True | Some k \<Rightarrow> m \<le> k)"






lemma Write_fits:
  "fits w (length p) \<Longrightarrow>
   \<exists>w'. Write w p = (w', int (length p), None) \<and> written w' = written w @ p
        \<and> failure w' = failure w
        \<and> room w' = (case room w of None \<Rightarrow> None | Some k \<Rightarrow> Some (k - length p))"
  by (auto simp: Write_def fits_def split: option.splits)








section \<open>The claims\<close>

text \<open>
  C1. Every line that ReadLine returns has at most \<open>limit\<close> code points, the prefix
  not counted, and the only cut inside a word is that of a word longer than the limit.
  The code does not keep this bound: with the limit 4 and no prefix, the text
  \<open>" abcde"\<close> is returned as the empty line and then the line \<open>"abcde"\<close> of five code
  points. The round that returns the empty line appends \<open>d\<close> to the pending word and
  returns before the width check, so the word is already four runes long when \<open>e\<close>
  arrives and the test \<open>word.Count() == limit\<close> never holds for it.
\<close>

theorem C1_line_longer_than_width:
  "ReadLines (NewScanner (text_source '' abcde'') 4) = Done ([[], ''abcde''], EOF)
   \<and> RuneCount ''abcde'' = 5"
  apply (subst ReadLines.simps, simp add: run_simps)
  apply (subst ReadLines.simps, simp add: run_simps)
  apply (subst ReadLines.simps, simp add: run_simps)
  done

text \<open>
  C2. The prefix is not counted against the limit: the lines with a prefix are the
  prefix followed by the lines without it, broken at the same places. The code counts
  the prefix: \<open>flushWord\<close> writes it into the line buffer, whose \<open>Count\<close> enters the
  width check. With the limit 8 the text \<open>"foo bar"\<close> is one line without a prefix
  and two lines with the prefix \<open>"--"\<close>.
\<close>

theorem C2_prefix_counted_against_width:
  "ReadLines (SetPrefix (NewScanner (text_source ''foo bar'') 8) ''--'')
     = Done ([''--foo'', ''--bar''], EOF)
   \<and> ReadLines (NewScanner (text_source ''foo bar'') 8) = Done ([''foo bar''], EOF)"
  apply (rule conjI)
   apply (subst ReadLines.simps, simp add: run_simps)
   apply (subst ReadLines.simps, simp add: run_simps)
   apply (subst ReadLines.simps, simp add: run_simps)
  apply (subst ReadLines.simps, simp add: run_simps)
  apply (subst ReadLines.simps, simp add: run_simps)
  done





text \<open>
  C8. The count of a \<open>runeBuffer\<close> is the number of code points of its contents after
  any sequence of \<open>WriteRune\<close>, \<open>WriteString\<close>, \<open>WriteTo\<close> and \<open>Reset\<close>, and
  \<open>WriteTo\<close> appends the contents of the source to the destination, adds its count
  and leaves the source empty with the count 0. The second part holds as stated. The
  first holds when every string written is well-formed UTF-8: starting from two empty
  buffers, both counts are then what \<open>utf8.RuneCount\<close> gives for the contents.
\<close>

theorem C8_count_equals_code_points:
  "(\<forall>ops a b. list_all well_formed_argument ops
        \<and> fold perform ops (empty_buffer, empty_buffer) = (a, b) \<longrightarrow>
      Count a = int (RuneCount (String a)) \<and> Count b = int (RuneCount (String b)))
   \<and> (\<forall>b w. rb_WriteTo b w =
        (\<lparr>buf = [], runeCount = 0\<rparr>,
         \<lparr>buf = String w @ String b, runeCount = Count w + Count b\<rparr>,
         int (length (String b)), None))"
  using exact_fold [OF exact_empty exact_empty]
  by (auto simp: rb_WriteTo_eq Count_def String_def exact_def)

theorem C8_witness:
  "Count (snd (fold perform [OpWriteString Fst [CHR 0x4B, CHR 0xC3, CHR 0xA4, CHR 0x73, CHR 0x65],
                             OpWriteRune Fst 0x1F600, OpWriteTo Fst, OpWriteRune Fst 0x20]
                 (empty_buffer, empty_buffer))) = 5
   \<and> RuneCount (String (snd (fold perform
                 [OpWriteString Fst [CHR 0x4B, CHR 0xC3, CHR 0xA4, CHR 0x73, CHR 0x65],
                  OpWriteRune Fst 0x1F600, OpWriteTo Fst, OpWriteRune Fst 0x20]
                 (empty_buffer, empty_buffer)))) = 5"
  using C8_count_equals_code_points
    [THEN conjunct1, rule_format,
     of "[OpWriteString Fst [CHR 0x4B, CHR 0xC3, CHR 0xA4, CHR 0x73, CHR 0x65],
          OpWriteRune Fst 0x1F600, OpWriteTo Fst, OpWriteRune Fst 0x20]"
        "fst (fold perform [OpWriteString Fst [CHR 0x4B, CHR 0xC3, CHR 0xA4, CHR 0x73, CHR 0x65],
                             OpWriteRune Fst 0x1F600, OpWriteTo Fst, OpWriteRune Fst 0x20]
                 (empty_buffer, empty_buffer))"
        "snd (fold perform [OpWriteString Fst [CHR 0x4B, CHR 0xC3, CHR 0xA4, CHR 0x73, CHR 0x65],
                             OpWriteRune Fst 0x1F600, OpWriteTo Fst, OpWriteRune Fst 0x20]
                 (empty_buffer, empty_buffer))"]
  by (simp add: well_formed.simps advance_def first_def WriteString_def WriteRune_def
      Buffer_WriteString_def Buffer_WriteRune_def rb_WriteTo_eq empty_buffer_def Count_def
      String_def RuneCount.simps)

text \<open>
  It fails for strings that are not well formed: \<open>WriteString\<close> counts the runes of each
  string on its own. The two bytes of \<open>U+00E4\<close> written one at a time count as two
  invalid sequences, and the buffer then holds one code point.
\<close>

theorem C8_counterexample:
  "Count (fst (fold perform [OpWriteString Fst [CHR 0xC3], OpWriteString Fst [CHR 0xA4]]
                 (empty_buffer, empty_buffer))) = 2
   \<and> RuneCount (String (fst (fold perform [OpWriteString Fst [CHR 0xC3], OpWriteString Fst [CHR 0xA4]]
                 (empty_buffer, empty_buffer)))) = 1"
  by (simp add: WriteString_def Buffer_WriteString_def empty_buffer_def Count_def String_def
      RuneCount.simps advance_def first_def)

text \<open>
  C3. During a call of \<open>ReadLine\<close> the sum of the counts of the line, the pending word
  and the pending space was claimed never to exceed \<open>limit + 1\<close> before the width check
  forces a commit decision. What the code does: a round that reaches the width check has
  raised the sum by exactly 1 for a rune that is not a tab and by at most \<open>tabWidth\<close> for
  a tab, and in addition by the code points of the prefix when the round flushed the
  pending word into the empty line; the width check leaves the state alone while the sum
  is below the limit, and from the limit on it takes the commit decision, after which
  \<open>skipNextWS\<close> is set and the pending space is empty.
\<close>

theorem C3_sum_after_one_character:
  assumes "running s" "consume s = Check s'" "pending (rdr s) = c # cs" "0 \<le> tabWidth s"
  shows "total s' \<le> total s + (if c = 0x09 then tabWidth s else 1)
                    + (if IsSpace c \<and> 0 < Count (word s) \<and> Count (line s) = 0
                       then int (RuneCount (prefix s)) else 0)
         \<and> (c \<noteq> 0x09 \<longrightarrow>
              total s' = total s + 1
                    + (if IsSpace c \<and> 0 < Count (word s) \<and> Count (line s) = 0
                       then int (RuneCount (prefix s)) else 0))
         \<and> (total s' < limit s' \<longrightarrow> commit s' = Continue s')
         \<and> (limit s' \<le> total s' \<longrightarrow>
              (\<forall>s''. commit s' = Continue s'' \<longrightarrow> skipNextWS s'' \<and> Count (space s'') = 0))"
proof -
  have i: "invariant (flushed s)"
    using running_inv [OF assms(1)] invariant_flushed(1) by simp
  then have l: "0 \<le> runeCount (line (flushed s))"
    by (simp add: invariant_def)
  have sum: "total s' \<le> total s + (if c = 0x09 then tabWidth s else 1)
                    + (if IsSpace c \<and> 0 < Count (word s) \<and> Count (line s) = 0
                       then int (RuneCount (prefix s)) else 0)
         \<and> (c \<noteq> 0x09 \<longrightarrow>
              total s' = total s + 1
                    + (if IsSpace c \<and> 0 < Count (word s) \<and> Count (line s) = 0
                       then int (RuneCount (prefix s)) else 0))"
    using assms(2)
  proof (cases rule: consume_Check_cases)
    case (blank c' cs')
    then have "c' = c" using assms(3) by simp
    have "total s' = total (flushed s) + 1"
      unfolding blank(6) by (simp add: total_def Count_def)
    then show ?thesis
      using blank(2,4) \<open>c' = c\<close> by (simp add: total_flushed)
  next
    case (tab cs' n)
    then have c: "c = 0x09" using assms(3) by simp
    have "n \<le> tabWidth s"
    proof (cases "tabWidth s = 0")
      case True
      then show ?thesis using tab(4) by simp
    next
      case False
      then have "0 < tabWidth s" using assms(4) by simp
      then have "0 \<le> runeCount (line (flushed s)) smod tabWidth s"
        using l by (simp add: smod_mod_positive)
      then show ?thesis using tab(4) False by simp
    qed
    moreover have "total s' = total (flushed s) + n"
      unfolding tab(5) by (simp add: total_def Count_def)
    ultimately show ?thesis
      using c by (simp add: total_flushed IsSpace_def)
  next
    case (letter c' cs')
    then have "c' = c" using assms(3) by simp
    have "total s' = total s + 1"
      unfolding letter(4) by (simp add: total_def Count_def)
    moreover have "c \<noteq> 0x09"
      using letter(2) \<open>c' = c\<close> by (auto simp: IsSpace_def)
    ultimately show ?thesis
      using letter(2) \<open>c' = c\<close> by simp
  qed
  have small: "total s' < limit s' \<longrightarrow> commit s' = Continue s'"
    by (simp add: commit_eq total_def Count_def)
  have large: "limit s' \<le> total s' \<longrightarrow>
              (\<forall>s''. commit s' = Continue s'' \<longrightarrow> skipNextWS s'' \<and> Count (space s'') = 0)"
    by (auto simp: commit_eq total_def Count_def Let_def split: list.splits if_splits)
  show ?thesis
    using sum small large by blast
qed

text \<open>The first round on the text \<open>"ab cd"\<close> with the limit 4.\<close>

theorem C3_witness:
  "\<exists>s'. consume (NewScanner (text_source ''ab cd'') 4) = Check s' \<and> total s' = 1
        \<and> commit s' = Continue s'"
proof -
  let ?s = "NewScanner (text_source ''ab cd'') 4"
  have r: "running ?s"
    by (rule running.start [OF reachable.new]) (simp add: NewScanner_def)
  obtain s' where c: "consume ?s = Check s'" and l: "limit s' = 4"
    by (simp add: run_simps)
  have p: "pending (rdr ?s) = 97 # ascii ''b cd''"
    by (simp add: NewScanner_def text_source_def ascii_def)
  have t: "0 \<le> tabWidth ?s" "total ?s = 0" "\<not> IsSpace 97"
    by (simp_all add: NewScanner_def total_def Count_def empty_buffer_def IsSpace_def)
  from C3_sum_after_one_character [OF r c p t(1)] have "total s' = 1" "commit s' = Continue s'"
    using t l by simp_all
  then show ?thesis using c by blast
qed

text \<open>
  The sum is not bounded by \<open>limit + 1\<close>: with the limit 2 and the tab width 4 of a new
  Scanner, a tab at the start of the input is expanded to four spaces at once, and the
  width check finds the sum 4.
\<close>

theorem C3_counterexample:
  "running (NewScanner (text_source [CHR 0x09]) 2)
   \<and> (\<exists>s'. consume (NewScanner (text_source [CHR 0x09]) 2) = Check s'
             \<and> total s' = 4 \<and> limit s' + 1 < total s')"
proof
  show "running (NewScanner (text_source [CHR 0x09]) 2)"
    by (rule running.start [OF reachable.new]) (simp add: NewScanner_def)
  show "\<exists>s'. consume (NewScanner (text_source [CHR 0x09]) 2) = Check s'
             \<and> total s' = 4 \<and> limit s' + 1 < total s'"
    by (simp add: run_simps total_def Count_def)
qed









end
